theory Spec2Isabelle
  imports Complex_Main "HOL-Library.Extended_Nat"
begin

section \<open>password\_generator.py: the candidate generator\<close>

text \<open>
  The fields of a \<^verbatim>\<open>PasswordGenerator\<close> object. Lengths are natural numbers (the
  length spin boxes of the caller start at 1). \<^verbatim>\<open>MAX_PASSWORDS\<close> is either
  \<^verbatim>\<open>float('inf')\<close> or the integer 1000000, hence an extended natural number.
\<close>

record generator =
  min_length :: nat
  max_length :: nat
  use_lowercase :: bool
  use_uppercase :: bool
  use_digits :: bool
  use_special :: bool
  MAX_PASSWORDS :: enat

text \<open>\<^verbatim>\<open>__init__\<close>: the last argument is \<^verbatim>\<open>no_limit\<close>.\<close>

definition PasswordGenerator ::
  "nat \<Rightarrow> nat \<Rightarrow> bool \<Rightarrow> bool \<Rightarrow> bool \<Rightarrow> bool \<Rightarrow> bool \<Rightarrow> generator" where
  "PasswordGenerator mn mx lower upper digs special no_limit =
     \<lparr> min_length = mn, max_length = mx,
       use_lowercase = lower, use_uppercase = upper,
       use_digits = digs, use_special = special,
       MAX_PASSWORDS = (if no_limit then \<infinity> else enat 1000000) \<rparr>"

definition ascii_lowercase :: string where
  "ascii_lowercase = ''abcdefghijklmnopqrstuvwxyz''"

definition ascii_uppercase :: string where
  "ascii_uppercase = ''ABCDEFGHIJKLMNOPQRSTUVWXYZ''"

definition digits :: string where
  "digits = ''0123456789''"

definition special_chars :: string where
  "special_chars = ''!@#$%^&*''"

text \<open>The character set built at the start of \<^verbatim>\<open>generate_passwords\<close>.\<close>

definition chars :: "generator \<Rightarrow> string" where
  "chars g =
     (let c = (if use_lowercase g then ascii_lowercase else [])
            @ (if use_uppercase g then ascii_uppercase else [])
            @ (if use_digits g then digits else [])
            @ (if use_special g then special_chars else [])
      in if c = [] then ascii_lowercase else c)"

text \<open>
  \<^verbatim>\<open>itertools.product(cs, repeat=n)\<close>, each tuple joined to a string: the
  first position is the outermost loop, so the rightmost position varies fastest.
\<close>

fun product_repeat :: "'a list \<Rightarrow> nat \<Rightarrow> 'a list list" where
  "product_repeat cs 0 = [[]]"
| "product_repeat cs (Suc n) = concat (map (\<lambda>c. map ((#) c) (product_repeat cs n)) cs)"

text \<open>\<^verbatim>\<open>estimate_count\<close>.\<close>

definition char_count :: "generator \<Rightarrow> nat" where
  "char_count g =
     (let n = (if use_lowercase g then 26 else 0)
            + (if use_uppercase g then 26 else 0)
            + (if use_digits g then 10 else 0)
            + (if use_special g then 8 else 0)
      in if n = 0 then 26 else n)"

definition estimate_count :: "generator \<Rightarrow> nat" where
  "estimate_count g =
     (let tot = fold (\<lambda>len tot. tot + char_count g ^ len)
                     [min_length g ..< max_length g + 1] 0
      in case MAX_PASSWORDS g of
           \<infinity> \<Rightarrow> tot
         | enat m \<Rightarrow> min tot m)"

text \<open>
  The two optional callbacks. A callback is arbitrary caller code: it reads and changes
  a state of the caller's, of type \<open>'s\<close>, and its result is read as a truth value.
  \<open>None\<close> is an absent callback.
\<close>

record 's callbacks =
  progress_callback :: "(nat \<Rightarrow> nat \<Rightarrow> 's \<Rightarrow> bool \<times> 's) option"
  pattern_callback :: "(string \<Rightarrow> 's \<Rightarrow> bool \<times> 's) option"

text \<open>
  The local state of \<^verbatim>\<open>generate_passwords\<close>: the list built so far, the counter, the
  caller's state, and (as a trace) the arguments of every call of the progress callback.
\<close>

record 's gen_state =
  passwords :: "string list"
  count :: nat
  cb_state :: 's
  progress_calls :: "(nat \<times> nat) list"

text \<open>Calling a callback: the result and the state after the call.\<close>

definition call_progress ::
  "(nat \<Rightarrow> nat \<Rightarrow> 's \<Rightarrow> bool \<times> 's) \<Rightarrow> nat \<Rightarrow> nat \<Rightarrow> 's gen_state \<Rightarrow> bool \<times> 's gen_state" where
  "call_progress f c tot s =
     (let (r, u) = f c tot (cb_state s)
      in (r, s\<lparr>cb_state := u, progress_calls := progress_calls s @ [(c, tot)]\<rparr>))"

definition call_pattern ::
  "(string \<Rightarrow> 's \<Rightarrow> bool \<times> 's) \<Rightarrow> string \<Rightarrow> 's gen_state \<Rightarrow> bool \<times> 's gen_state" where
  "call_pattern f p s = (let (r, u) = f p (cb_state s) in (r, s\<lparr>cb_state := u\<rparr>))"

text \<open>The parameters that stay fixed during one run.\<close>

record 's run_params =
  cbs :: "'s callbacks"
  total_estimate :: nat
  progress_interval :: nat
  cap :: enat

text \<open>
  The body of each of the five candidate loops (the source repeats it verbatim): append,
  count, the progress tick, the pattern tick, the hard stop. The second component is
  \<open>True\<close> when the body executed \<^verbatim>\<open>return passwords\<close>.
\<close>

definition emit :: "'s run_params \<Rightarrow> string \<Rightarrow> 's gen_state \<Rightarrow> 's gen_state \<times> bool" where
  "emit P pattern s0 =
     (let s1 = s0\<lparr>passwords := passwords s0 @ [pattern], count := count s0 + 1\<rparr>;
          (go1, s2) =
            (case progress_callback (cbs P) of
               Some f \<Rightarrow>
                 if count s1 mod progress_interval P = 0
                 then call_progress f (count s1) (total_estimate P) s1
                 else (True, s1)
             | None \<Rightarrow> (True, s1))
      in if \<not> go1 then (s2, True)
         else
           let (go2, s3) =
                 (case pattern_callback (cbs P) of
                    Some f \<Rightarrow>
                      if count s2 mod (progress_interval P * 10) = 0
                      then call_pattern f pattern s2
                      else (True, s2)
                  | None \<Rightarrow> (True, s2))
           in if \<not> go2 then (s3, True)
              else if enat (count s3) \<ge> cap P
                   then (case progress_callback (cbs P) of
                           Some f \<Rightarrow> (snd (call_progress f (count s3) (total_estimate P) s3), True)
                         | None \<Rightarrow> (s3, True))
                   else (s3, False))"

text \<open>\<^verbatim>\<open>for combination in ...\<close>: the body on each candidate until it returns.\<close>

fun emit_all :: "'s run_params \<Rightarrow> string list \<Rightarrow> 's gen_state \<Rightarrow> 's gen_state \<times> bool" where
  "emit_all P [] s = (s, False)"
| "emit_all P (p # ps) s =
     (case emit P p s of
        (s', True) \<Rightarrow> (s', True)
      | (s', False) \<Rightarrow> emit_all P ps s')"

text \<open>
  The nested loops of the mixed letter-number pass: the outer loop runs over the letter
  prefixes, the inner one over the digit suffixes.
\<close>

fun mixed_loop ::
  "'s run_params \<Rightarrow> string list \<Rightarrow> string list \<Rightarrow> 's gen_state \<Rightarrow> 's gen_state \<times> bool" where
  "mixed_loop P [] ds s = (s, False)"
| "mixed_loop P (letters # ls) ds s =
     (case emit_all P (map (\<lambda>d. letters @ d) ds) s of
        (s', True) \<Rightarrow> (s', True)
      | (s', False) \<Rightarrow> mixed_loop P ls ds s')"

text \<open>Python's \<^verbatim>\<open>str\<close> of a natural number, for the labels.\<close>

fun str_nat :: "nat \<Rightarrow> string" where
  "str_nat n =
     (if n < 10 then [char_of (n + 48)] else str_nat (n div 10) @ [char_of (n mod 10 + 48)])"

declare str_nat.simps [simp del]

text \<open>A label sent to the pattern callback; its result is ignored.\<close>

definition announce :: "'s run_params \<Rightarrow> string \<Rightarrow> 's gen_state \<Rightarrow> 's gen_state" where
  "announce P label s =
     (case pattern_callback (cbs P) of
        Some f \<Rightarrow> snd (call_pattern f label s)
      | None \<Rightarrow> s)"

text \<open>The three passes of the subset generated for a long length.\<close>

definition lowercase_pass :: "generator \<Rightarrow> 's run_params \<Rightarrow> nat \<Rightarrow> 's gen_state \<Rightarrow> 's gen_state \<times> bool" where
  "lowercase_pass g P len s =
     (if use_lowercase g
      then emit_all P (product_repeat ascii_lowercase len)
             (announce P (''Length '' @ str_nat len @ '' lowercase passwords'') s)
      else (s, False))"

definition numeric_pass :: "generator \<Rightarrow> 's run_params \<Rightarrow> nat \<Rightarrow> 's gen_state \<Rightarrow> 's gen_state \<times> bool" where
  "numeric_pass g P len s =
     (if use_digits g
      then emit_all P (product_repeat digits len)
             (announce P (''Length '' @ str_nat len @ '' numeric passwords'') s)
      else (s, False))"

definition mixed_pass :: "generator \<Rightarrow> 's run_params \<Rightarrow> nat \<Rightarrow> 's gen_state \<Rightarrow> 's gen_state \<times> bool" where
  "mixed_pass g P len s =
     (if len \<ge> 4 \<and> use_lowercase g \<and> use_digits g
      then let half = len div 2
           in mixed_loop P (product_repeat ascii_lowercase half)
                (product_repeat digits (len - half))
                (announce P (''Length '' @ str_nat len @ '' mixed letter-number passwords'') s)
      else (s, False))"

text \<open>The body of the loop over the lengths.\<close>

definition gen_length :: "generator \<Rightarrow> 's run_params \<Rightarrow> nat \<Rightarrow> 's gen_state \<Rightarrow> 's gen_state \<times> bool" where
  "gen_length g P len s =
     (let combinations_count = length (chars g) ^ len
      in if enat (combinations_count + count s) > cap P
         then
           if len \<le> 3
           then emit_all P (product_repeat (chars g) len)
                  (announce P (''Length '' @ str_nat len @ '' passwords with all chars'') s)
           else
             (case lowercase_pass g P len s of
                (s1, True) \<Rightarrow> (s1, True)
              | (s1, False) \<Rightarrow>
                  (case numeric_pass g P len s1 of
                     (s2, True) \<Rightarrow> (s2, True)
                   | (s2, False) \<Rightarrow> mixed_pass g P len s2))
         else emit_all P (product_repeat (chars g) len)
                (announce P (''All length '' @ str_nat len @ '' combinations'') s))"

fun gen_lengths :: "generator \<Rightarrow> 's run_params \<Rightarrow> nat list \<Rightarrow> 's gen_state \<Rightarrow> 's gen_state \<times> bool" where
  "gen_lengths g P [] s = (s, False)"
| "gen_lengths g P (len # lens) s =
     (case gen_length g P len s of
        (s', True) \<Rightarrow> (s', True)
      | (s', False) \<Rightarrow> gen_lengths g P lens s')"

definition params :: "generator \<Rightarrow> 's callbacks \<Rightarrow> 's run_params" where
  "params g C =
     \<lparr> cbs = C,
       total_estimate = estimate_count g,
       progress_interval = max 1 (min 10000 (estimate_count g div 100)),
       cap = MAX_PASSWORDS g \<rparr>"

text \<open>
  \<^verbatim>\<open>generate_passwords\<close>, with the whole final state; \<open>u\<close> is the caller's state
  when the generator is called.
\<close>

definition generate_run :: "generator \<Rightarrow> 's callbacks \<Rightarrow> 's \<Rightarrow> 's gen_state" where
  "generate_run g C u =
     (let P = params g C;
          s0 = \<lparr> passwords = [], count = 0, cb_state = u, progress_calls = [] \<rparr>;
          s1 = (case progress_callback C of
                  Some f \<Rightarrow> snd (call_progress f 0 (total_estimate P) s0)
                | None \<Rightarrow> s0)
      in case gen_lengths g P [min_length g ..< max_length g + 1] s1 of
           (s2, True) \<Rightarrow> s2
         | (s2, False) \<Rightarrow>
             (case progress_callback C of
                Some f \<Rightarrow> snd (call_progress f (count s2) (total_estimate P) s2)
              | None \<Rightarrow> s2))"

definition generate_passwords :: "generator \<Rightarrow> 's callbacks \<Rightarrow> 's \<Rightarrow> string list" where
  "generate_passwords g C u = passwords (generate_run g C u)"

subsection \<open>Invariants of the generator loops\<close>

text \<open>
  The list and the counter agree, and every recorded progress call passed a count no larger
  than the current one together with the fixed estimate.
\<close>

definition gen_inv :: "'s run_params \<Rightarrow> 's gen_state \<Rightarrow> bool" where
  "gen_inv P s \<longleftrightarrow> length (passwords s) = count s
     \<and> (\<forall>x \<in> set (progress_calls s). fst x \<le> count s \<and> snd x = total_estimate P)"

definition capped :: "'s run_params \<Rightarrow> 's gen_state \<times> bool \<Rightarrow> bool" where
  "capped P res \<longleftrightarrow> (if snd res then enat (count (fst res)) \<le> cap P else enat (count (fst res)) < cap P)"

definition pass_ok :: "'s run_params \<Rightarrow> nat \<Rightarrow> string set \<Rightarrow> 's gen_state \<Rightarrow> 's gen_state \<times> bool \<Rightarrow> bool" where
  "pass_ok P B A s res \<longleftrightarrow>
     gen_inv P (fst res) \<and> count (fst res) \<le> count s + B \<and> capped P res
     \<and> (\<exists>xs. passwords (fst res) = passwords s @ xs \<and> set xs \<subseteq> A)"

definition fallback_count :: "generator \<Rightarrow> nat \<Rightarrow> nat" where
  "fallback_count g len =
     (if use_lowercase g then 26 ^ len else 0) + (if use_digits g then 10 ^ len else 0)
     + (if len \<ge> 4 \<and> use_lowercase g \<and> use_digits g then 26 ^ (len div 2) * 10 ^ (len - len div 2) else 0)"

text \<open>No callback ever asks the generator to stop.\<close>

definition never_cancels :: "'s callbacks \<Rightarrow> bool" where
  "never_cancels C \<longleftrightarrow>
     (\<forall>f c t u. progress_callback C = Some f \<longrightarrow> fst (f c t u))
   \<and> (\<forall>f p u. pattern_callback C = Some f \<longrightarrow> fst (f p u))"

text \<open>The first \<open>n\<close> elements, all of them when \<open>n\<close> is infinite.\<close>

fun take_enat :: "enat \<Rightarrow> 'a list \<Rightarrow> 'a list" where
  "take_enat (enat m) xs = take m xs"
| "take_enat \<infinity> xs = xs"

text \<open>
  A pass started in \<open>s\<close> appended the candidates \<open>X\<close> up to the room left under the cap, and
  returned exactly when it reached the cap.
\<close>

definition emits_exactly :: "'s run_params \<Rightarrow> string list \<Rightarrow> 's gen_state \<Rightarrow> 's gen_state \<times> bool \<Rightarrow> bool" where
  "emits_exactly P X s res \<longleftrightarrow>
     passwords (fst res) = passwords s @ take_enat (cap P - enat (count s)) X
   \<and> count (fst res) = count s + length (take_enat (cap P - enat (count s)) X)
   \<and> (snd res \<longleftrightarrow> X \<noteq> [] \<and> cap P \<le> enat (count s + length X))"

text \<open>
  The subset for a long length as the specification words it (by the class flags): the
  lowercase product, then the digit product, then every lowercase prefix of half the
  length with every digit suffix of the rest, prefix outermost.
\<close>

definition fallback_spec :: "generator \<Rightarrow> nat \<Rightarrow> string list" where
  "fallback_spec g len =
     (if use_lowercase g then product_repeat ascii_lowercase len else [])
   @ (if use_digits g then product_repeat digits len else [])
   @ (if use_lowercase g \<and> use_digits g
      then concat (map (\<lambda>prefix. map (\<lambda>suffix. prefix @ suffix) (product_repeat digits (len - len div 2)))
                       (product_repeat ascii_lowercase (len div 2)))
      else [])"

section \<open>main.py: the memory checks\<close>

text \<open>
  What one call of \<^verbatim>\<open>check_memory_usage\<close> does: the value sent with the
  \<^verbatim>\<open>memory_warning\<close> signal, if it is emitted, and whether \<^verbatim>\<open>self.cancel()\<close>
  is called.
\<close>

record mem_check =
  memory_warning :: "real option"
  cancel_called :: bool

text \<open>
  \<^verbatim>\<open>PasswordGenerationThread.check_memory_usage\<close>. The first argument is
  \<^verbatim>\<open>PSUTIL_AVAILABLE\<close>; the second is the sample \<^verbatim>\<open>memory_mb\<close>, or \<open>None\<close> when
  reading it raised (the handler logs and returns); the third is \<^verbatim>\<open>memory_limit_mb\<close>.
  Numbers are exact here: both comparisons are strict, so a sample equal to the threshold
  that was computed passes neither, however the product was rounded.
\<close>

definition gen_check_memory_usage :: "bool \<Rightarrow> real option \<Rightarrow> int \<Rightarrow> mem_check" where
  "gen_check_memory_usage PSUTIL_AVAILABLE sample memory_limit_mb =
     (if \<not> PSUTIL_AVAILABLE then \<lparr> memory_warning = None, cancel_called = False \<rparr>
      else case sample of
             None \<Rightarrow> \<lparr> memory_warning = None, cancel_called = False \<rparr>
           | Some memory_mb \<Rightarrow>
               \<lparr> memory_warning =
                   (if memory_mb > real_of_int memory_limit_mb * 0.8 then Some memory_mb else None),
                 cancel_called = (memory_mb > real_of_int memory_limit_mb * 0.95) \<rparr>)"

text \<open>
  \<^verbatim>\<open>PasswordRecoveryThread.check_memory_usage\<close>. The first argument says whether
  \<^verbatim>\<open>import psutil\<close> succeeds (an \<^verbatim>\<open>ImportError\<close> is logged and nothing else
  happens).
\<close>

definition rec_check_memory_usage :: "bool \<Rightarrow> real option \<Rightarrow> int \<Rightarrow> mem_check" where
  "rec_check_memory_usage psutil_imports sample memory_limit_mb =
     (if \<not> psutil_imports then \<lparr> memory_warning = None, cancel_called = False \<rparr>
      else case sample of
             None \<Rightarrow> \<lparr> memory_warning = None, cancel_called = False \<rparr>
           | Some memory_mb \<Rightarrow>
               \<lparr> memory_warning =
                   (if memory_mb > real_of_int memory_limit_mb * 0.8 then Some memory_mb else None),
                 cancel_called = (memory_mb > real_of_int memory_limit_mb) \<rparr>)"

section \<open>pdf\_recovery.py: one decryption attempt\<close>

text \<open>
  The exceptions that opening a file and reading a PDF raise; all are subclasses of
  \<^verbatim>\<open>Exception\<close>.
\<close>

datatype exn = OSError | PdfReadError | OtherException

text \<open>
  What the file system and the PDF library do during one attempt: whether \<^verbatim>\<open>open\<close> and
  \<^verbatim>\<open>PdfReader(file)\<close> raise, the value of \<^verbatim>\<open>reader.is_encrypted\<close>, and the
  result of \<^verbatim>\<open>reader.decrypt(password)\<close>, a number read as a truth value (0 is
  "not decrypted").
\<close>

record pdf_io =
  open_raises :: "exn option"
  PdfReader_raises :: "exn option"
  is_encrypted :: "exn + bool"
  decrypt :: "string \<Rightarrow> exn + nat"

text \<open>The body of the \<^verbatim>\<open>try\<close> block: \<open>Inl\<close> is an exception leaving it.\<close>

definition try_body :: "pdf_io \<Rightarrow> string \<Rightarrow> exn + bool" where
  "try_body io password =
     (case open_raises io of
        Some e \<Rightarrow> Inl e
      | None \<Rightarrow>
          (case PdfReader_raises io of
             Some e \<Rightarrow> Inl e
           | None \<Rightarrow>
               (case is_encrypted io of
                  Inl e \<Rightarrow> Inl e
                | Inr encrypted \<Rightarrow>
                    if encrypted
                    then (case decrypt io password of
                            Inl e \<Rightarrow> Inl e
                          | Inr t \<Rightarrow> if t \<noteq> 0 then Inr True else Inr False)
                    else Inr True)))"

text \<open>\<^verbatim>\<open>try_password\<close>: the handler prints and returns \<^verbatim>\<open>False\<close>.\<close>

definition try_password :: "pdf_io \<Rightarrow> string \<Rightarrow> exn + bool" where
  "try_password io password =
     (case try_body io password of
        Inl e \<Rightarrow> Inr False
      | Inr b \<Rightarrow> Inr b)"

section \<open>main.py: the search worker\<close>

datatype event =
    ProgressUpdate int
  | PasswordFound string
  | PasswordNotFound
  | MemoryWarning real
  | CurrentPasswordUpdate string

text \<open>How \<^verbatim>\<open>run\<close> ended: which \<^verbatim>\<open>return\<close> it took, or an exception that left it.\<close>

datatype outcome = Cancelled | Found string | NotFound | Crashed exn

text \<open>
  Where the worker thread is: before \<^verbatim>\<open>run\<close>, at the loop test and the cancel check,
  at \<^verbatim>\<open>check_paused\<close>, blocked in \<^verbatim>\<open>resume_condition.wait\<close>, about to process a
  batch, or finished.
\<close>

datatype pc = Start | AtLoop | AtPauseGate | Waiting | AtBatch | Finished outcome

text \<open>
  The fields of the thread object, the local \<^verbatim>\<open>i\<close> of \<^verbatim>\<open>run\<close>, the signals
  emitted so far and (as a trace) the indices on which \<^verbatim>\<open>try_password\<close> was called.
\<close>

record worker =
  paused :: bool
  cancelled :: bool
  current_position :: nat
  i :: nat
  pc :: pc
  events :: "event list"
  tested :: "nat list"

text \<open>
  What surrounds one search: the list, what each attempt meets (by index), the memory
  limit, whether \<^verbatim>\<open>psutil\<close> imports, the memory sample read after the batch that
  starts at a given index, and \<^verbatim>\<open>int(end_batch / total * 100)\<close> as floating-point
  arithmetic computes it.
\<close>

record search_env =
  password_list :: "string list"
  attempt :: "nat \<Rightarrow> pdf_io"
  memory_limit_mb :: int
  psutil_imports :: bool
  memory_at :: "nat \<Rightarrow> real option"
  percent :: "nat \<Rightarrow> nat \<Rightarrow> int"

text \<open>\<^verbatim>\<open>__init__\<close>.\<close>

definition init_worker :: worker where
  "init_worker = \<lparr> paused = False, cancelled = False, current_position = 0, i = 0,
                    pc = Start, events = [], tested = [] \<rparr>"

definition emit_event :: "event \<Rightarrow> worker \<Rightarrow> worker" where
  "emit_event e w = w\<lparr>events := events w @ [e]\<rparr>"

text \<open>
  \<^verbatim>\<open>wakeAll\<close>: a thread blocked in \<^verbatim>\<open>wait\<close> returns from it, and so from
  \<^verbatim>\<open>check_paused\<close>.
\<close>

definition wakeAll :: "worker \<Rightarrow> worker" where
  "wakeAll w = (if pc w = Waiting then w\<lparr>pc := AtBatch\<rparr> else w)"

text \<open>\<^verbatim>\<open>pause\<close>, \<^verbatim>\<open>resume\<close> and \<^verbatim>\<open>cancel\<close>, each under the mutex.\<close>

definition pause :: "worker \<Rightarrow> worker" where
  "pause w = w\<lparr>paused := True\<rparr>"

definition resume :: "worker \<Rightarrow> worker" where
  "resume w = wakeAll (w\<lparr>paused := False\<rparr>)"

definition cancel :: "worker \<Rightarrow> worker" where
  "cancel w = wakeAll (w\<lparr>cancelled := True, paused := False\<rparr>)"

text \<open>\<^verbatim>\<open>check_memory_usage\<close> as the worker calls it after the batch that began at \<open>i\<close>.\<close>

definition worker_check_memory :: "search_env \<Rightarrow> worker \<Rightarrow> worker" where
  "worker_check_memory env w =
     (let r = rec_check_memory_usage (psutil_imports env) (memory_at env (i w)) (memory_limit_mb env);
          w1 = (case memory_warning r of Some m \<Rightarrow> emit_event (MemoryWarning m) w | None \<Rightarrow> w)
      in if cancel_called r then cancel w1 else w1)"

text \<open>
  \<^verbatim>\<open>for j in range(i, end_batch)\<close>: the sampled update, the attempt, then either
  \<^verbatim>\<open>password_found\<close> and \<^verbatim>\<open>return\<close>, or the new \<^verbatim>\<open>current_position\<close>.
\<close>

fun batch_loop :: "search_env \<Rightarrow> nat list \<Rightarrow> worker \<Rightarrow> worker" where
  "batch_loop env [] w = w"
| "batch_loop env (j # js) w =
     (let password = password_list env ! j;
          w1 = (if j mod 10 = 0 then emit_event (CurrentPasswordUpdate password) w else w);
          w2 = w1\<lparr>tested := tested w1 @ [j]\<rparr>
      in case try_password (attempt env j) password of
           Inl e \<Rightarrow> w2\<lparr>pc := Finished (Crashed e)\<rparr>
         | Inr True \<Rightarrow> (emit_event (PasswordFound password) w2)\<lparr>pc := Finished (Found password)\<rparr>
         | Inr False \<Rightarrow> batch_loop env js (w2\<lparr>current_position := j + 1\<rparr>))"

text \<open>
  One step of the worker thread. The cancel check, the pause gate and a whole batch are
  one step each: the flags are read under the mutex at the first two only, and a batch
  reads none of them.
\<close>

definition step :: "search_env \<Rightarrow> worker \<Rightarrow> worker" where
  "step env w =
     (let total = length (password_list env) in
      case pc w of
        Start \<Rightarrow> w\<lparr>i := current_position w, pc := AtLoop\<rparr>
      | AtLoop \<Rightarrow>
          if i w < total
          then (if cancelled w then w\<lparr>pc := Finished Cancelled\<rparr> else w\<lparr>pc := AtPauseGate\<rparr>)
          else (emit_event PasswordNotFound w)\<lparr>pc := Finished NotFound\<rparr>
      | AtPauseGate \<Rightarrow> if paused w then w\<lparr>pc := Waiting\<rparr> else w\<lparr>pc := AtBatch\<rparr>
      | Waiting \<Rightarrow> w
      | AtBatch \<Rightarrow>
          (let end_batch = min (i w + 100) total;
               w1 = batch_loop env [i w ..< end_batch] w
           in case pc w1 of
                Finished out \<Rightarrow> w1
              | _ \<Rightarrow>
                  (let w2 = emit_event (ProgressUpdate (percent env end_batch total)) w1;
                       w3 = (if i w mod 1000 = 0 then worker_check_memory env w2 else w2)
                   in w3\<lparr>i := end_batch, pc := AtLoop\<rparr>))
      | Finished out \<Rightarrow> w)"

text \<open>
  A run of the worker with the controlling thread: a step of the worker, or one of the
  three calls of the controlling thread, in any order.
\<close>

datatype action = Step | Pause | Resume | Cancel

fun act :: "search_env \<Rightarrow> action \<Rightarrow> worker \<Rightarrow> worker" where
  "act env Step w = step env w"
| "act env Pause w = pause w"
| "act env Resume w = resume w"
| "act env Cancel w = cancel w"

definition exec :: "search_env \<Rightarrow> action list \<Rightarrow> worker \<Rightarrow> worker" where
  "exec env sched w = fold (act env) sched w"

text \<open>The attempt on index \<open>j\<close> succeeds.\<close>

definition decrypts :: "search_env \<Rightarrow> nat \<Rightarrow> bool" where
  "decrypts env j \<longleftrightarrow> try_password (attempt env j) (password_list env ! j) = Inr True"

text \<open>The memory check after the batch that starts at \<open>k\<close> calls \<^verbatim>\<open>cancel\<close>.\<close>

definition memory_cancels :: "search_env \<Rightarrow> nat \<Rightarrow> bool" where
  "memory_cancels env k \<longleftrightarrow>
     k mod 1000 = 0
   \<and> cancel_called (rec_check_memory_usage (psutil_imports env) (memory_at env k) (memory_limit_mb env))"

text \<open>The \<^verbatim>\<open>current_password_update\<close> signals of a run of indices: every tenth index.\<close>

definition sampled :: "search_env \<Rightarrow> nat list \<Rightarrow> event list" where
  "sampled env js = map (\<lambda>j. CurrentPasswordUpdate (password_list env ! j)) (filter (\<lambda>j. j mod 10 = 0) js)"

text \<open>
  What holds of the worker between its steps: outside a batch the local \<^verbatim>\<open>i\<close> is
  \<^verbatim>\<open>current_position\<close>, and the indices tried so far are exactly those below it, in order.
\<close>

definition worker_inv :: "search_env \<Rightarrow> worker \<Rightarrow> bool" where
  "worker_inv env w \<longleftrightarrow>
     (case pc w of
        Start \<Rightarrow> current_position w = 0 \<and> tested w = []
      | Finished out \<Rightarrow> True
      | AtLoop \<Rightarrow> i w = current_position w \<and> tested w = [0 ..< i w] \<and> i w \<le> length (password_list env)
      | _ \<Rightarrow> i w = current_position w \<and> tested w = [0 ..< i w] \<and> i w < length (password_list env))"

subsection \<open>Sample documents and a sample environment\<close>

text \<open>An encrypted document that opens and parses, with the given password.\<close>

definition opens_with :: "string \<Rightarrow> pdf_io" where
  "opens_with pw = \<lparr> open_raises = None, PdfReader_raises = None, is_encrypted = Inr True,
                      decrypt = (\<lambda>p. Inr (if p = pw then 1 else 0)) \<rparr>"


text \<open>
  A search over a list, the same document state at every attempt, memory far from the
  limit. The last argument tabulates \<^verbatim>\<open>int(end_batch / total * 100)\<close> for the
  pairs the run reaches.
\<close>

definition example_env :: "string list \<Rightarrow> pdf_io \<Rightarrow> (nat \<Rightarrow> nat \<Rightarrow> int) \<Rightarrow> search_env" where
  "example_env pws io pct = \<lparr> password_list = pws, attempt = (\<lambda>j. io), memory_limit_mb = 1000,
       psutil_imports = True, memory_at = (\<lambda>k. Some 100), percent = pct \<rparr>"

text \<open>
  Over a list of at most 100 candidates there is one batch, and the only value computed
  is \<^verbatim>\<open>int(total / total * 100)\<close>, which is 100.
\<close>

definition percent_single_batch :: "nat \<Rightarrow> nat \<Rightarrow> int" where
  "percent_single_batch end_batch tot = 100"

text \<open>
  Over a list of 150 candidates the batches end at 100 and at 150:
  \<^verbatim>\<open>int(100 / 150 * 100)\<close> is 66 and \<^verbatim>\<open>int(150 / 150 * 100)\<close> is 100.
\<close>

definition percent_of_150 :: "nat \<Rightarrow> nat \<Rightarrow> int" where
  "percent_of_150 end_batch tot = (if end_batch = 100 then 66 else 100)"

text \<open>
  How a worker ends that is cancelled when about to process the batch starting at \<open>k\<close>:
  found, with the first candidate of that batch that decrypts; otherwise cancelled when
  candidates remain after the batch, and not found when the batch was the last.
\<close>

definition outcome_after_cancel :: "search_env \<Rightarrow> nat \<Rightarrow> outcome" where
  "outcome_after_cancel env k =
     (let total = length (password_list env);
          end_batch = min (k + 100) total
      in case find (decrypts env) [k ..< end_batch] of
           Some m \<Rightarrow> Found (password_list env ! m)
         | None \<Rightarrow> if end_batch < total then Cancelled else NotFound)"


section \<open>Properties of the estimate\<close>

lemma fold_sum_acc: "fold (\<lambda>len tot. tot + f len) xs (a::nat) = a + sum_list (map f xs)"
  by (induction xs arbitrary: a) (simp_all add: add.assoc)

lemma estimate_sum:
  "fold (\<lambda>len tot. tot + (n::nat) ^ len) [a ..< b + 1] 0 = (\<Sum>L = a .. b. n ^ L)"
proof -
  have "fold (\<lambda>len tot. tot + n ^ len) [a ..< b + 1] 0 = sum_list (map (\<lambda>L. n ^ L) [a ..< b + 1])"
    by (simp only: fold_sum_acc add_0)
  also have "\<dots> = (\<Sum>L = a ..< b + 1. n ^ L)"
    by (simp only: interv_sum_list_conv_sum_set_nat set_upt)
  also have "{a ..< b + 1} = {a .. b}" by auto
  finally show ?thesis .
qed

lemma estimate_count_eq:
  "estimate_count g =
     (case MAX_PASSWORDS g of
        \<infinity> \<Rightarrow> (\<Sum>L = min_length g .. max_length g. char_count g ^ L)
      | enat m \<Rightarrow> min (\<Sum>L = min_length g .. max_length g. char_count g ^ L) m)"
  unfolding estimate_count_def Let_def estimate_sum ..

text \<open>
  Claim C7. \<^verbatim>\<open>estimate_count\<close> is a function of the generator's fields alone: with
  \<open>n\<close> the sum of the sizes of the selected classes (26, 26, 10, 8), or 26 when none is
  selected, it is the sum of \<open>n ^ L\<close> over the lengths from the minimum to the maximum,
  cut at 1000000 unless \<^verbatim>\<open>no_limit\<close> is set; for lengths 1 to 2 over lowercase
  letters and digits it is 1332.
\<close>

theorem estimate_count_closed_form:
  "estimate_count (PasswordGenerator mn mx lo up di sp nl) =
     (let k = (if lo then 26 else 0) + (if up then 26 else 0)
            + (if di then 10 else 0) + (if sp then 8 else 0);
          n = (if k = 0 then 26 else k);
          S = (\<Sum>L = mn .. mx. n ^ L)
      in if nl then S else min S 1000000)
   \<and> estimate_count (PasswordGenerator 1 2 True False True False False) = 1332"
proof -
  have "estimate_count (PasswordGenerator mn mx lo up di sp nl) =
     (let k = (if lo then 26 else 0) + (if up then 26 else 0)
            + (if di then 10 else 0) + (if sp then 8 else 0);
          n = (if k = 0 then 26 else k);
          S = (\<Sum>L = mn .. mx. n ^ L)
      in if nl then S else min S 1000000)"
    by (simp add: estimate_count_eq PasswordGenerator_def char_count_def Let_def)
  moreover have "estimate_count (PasswordGenerator 1 2 True False True False False) = 1332"
    by (simp add: estimate_count_def PasswordGenerator_def char_count_def upt_rec)
  ultimately show ?thesis by blast
qed

section \<open>Bounds on what the generator emits\<close>

lemma call_progress_facts:
  "call_progress f c t s = (r, s') \<Longrightarrow>
     passwords s' = passwords s \<and> count s' = count s \<and> progress_calls s' = progress_calls s @ [(c, t)]"
  by (auto simp: call_progress_def split: prod.splits)

lemma call_pattern_facts:
  "call_pattern f p s = (r, s') \<Longrightarrow>
     passwords s' = passwords s \<and> count s' = count s \<and> progress_calls s' = progress_calls s"
  by (auto simp: call_pattern_def split: prod.splits)

lemma emit_facts:
  assumes "emit P p s = (s', r)"
  shows "passwords s' = passwords s @ [p]" and "count s' = count s + 1"
    and "\<not> r \<Longrightarrow> enat (count s') < cap P"
    and "\<exists>cs. progress_calls s' = progress_calls s @ cs \<and> set cs \<subseteq> {(count s + 1, total_estimate P)}"
  using assms
  unfolding emit_def Let_def
  by (auto split: option.splits if_splits prod.splits dest!: call_progress_facts call_pattern_facts
           simp: snd_def)

lemma emit_ok:
  assumes "emit P p s = (s', r)" "gen_inv P s" "enat (count s) < cap P"
  shows "pass_ok P 1 {p} s (s', r)"
proof -
  note f = emit_facts[OF assms(1)]
  from f(4) obtain cs where cs: "progress_calls s' = progress_calls s @ cs"
     "set cs \<subseteq> {(count s + 1, total_estimate P)}" by blast
  have "gen_inv P s'" using assms(2) f(1,2) cs unfolding gen_inv_def by auto
  moreover have "capped P (s', r)"
  proof (cases r)
    case True
    from assms(3) have "enat (count s + 1) \<le> cap P"
      by (cases "cap P") auto
    with True f(2) show ?thesis by (simp add: capped_def)
  next
    case False
    with f(3) show ?thesis by (simp add: capped_def)
  qed
  ultimately show ?thesis using f(1,2) by (simp add: pass_ok_def)
qed

lemma pass_ok_refl: "gen_inv P s \<Longrightarrow> enat (count s) < cap P \<Longrightarrow> pass_ok P 0 A s (s, False)"
  by (simp add: pass_ok_def capped_def)

lemma pass_ok_stop:
  "pass_ok P B A s (s', True) \<Longrightarrow> B \<le> B' \<Longrightarrow> A \<subseteq> A' \<Longrightarrow> pass_ok P B' A' s (s', True)"
  by (auto simp: pass_ok_def capped_def)

lemma pass_ok_trans:
  assumes "pass_ok P B1 A1 s (s1, False)" "pass_ok P B2 A2 s1 res"
    and "B1 + B2 \<le> B" "A1 \<union> A2 \<subseteq> A"
  shows "pass_ok P B A s res"
proof -
  from assms(1) obtain xs where xs: "passwords s1 = passwords s @ xs" "set xs \<subseteq> A1"
    and c1: "count s1 \<le> count s + B1" by (auto simp: pass_ok_def)
  from assms(2) obtain ys where ys: "passwords (fst res) = passwords s1 @ ys" "set ys \<subseteq> A2"
    and c2: "count (fst res) \<le> count s1 + B2" and r: "gen_inv P (fst res)" "capped P res"
    by (auto simp: pass_ok_def)
  have "passwords (fst res) = passwords s @ (xs @ ys)" "set (xs @ ys) \<subseteq> A"
    using xs ys assms(4) by auto
  then have "\<exists>zs. passwords (fst res) = passwords s @ zs \<and> set zs \<subseteq> A" by blast
  moreover have "count (fst res) \<le> count s + B" using c1 c2 assms(3) by linarith
  ultimately show ?thesis using r by (simp add: pass_ok_def)
qed

lemma pass_ok_cap: "pass_ok P B A s (s', False) \<Longrightarrow> gen_inv P s' \<and> enat (count s') < cap P"
  by (simp add: pass_ok_def capped_def)

lemma emit_all_ok:
  "emit_all P ps s = res \<Longrightarrow> gen_inv P s \<Longrightarrow> enat (count s) < cap P \<Longrightarrow>
     pass_ok P (length ps) (set ps) s res"
proof (induction ps arbitrary: s)
  case Nil
  then show ?case by (auto intro: pass_ok_refl)
next
  case (Cons p ps)
  obtain s1 r1 where e: "emit P p s = (s1, r1)" by (cases "emit P p s")
  have ok1: "pass_ok P 1 {p} s (s1, r1)" by (rule emit_ok[OF e Cons.prems(2,3)])
  show ?case
  proof (cases r1)
    case True
    with e Cons.prems(1) have "res = (s1, True)" by simp
    with ok1 True show ?thesis by (auto intro: pass_ok_stop)
  next
    case False
    with e Cons.prems(1) have r: "emit_all P ps s1 = res" by simp
    from ok1 False have "gen_inv P s1" "enat (count s1) < cap P" by (auto dest: pass_ok_cap)
    from Cons.IH[OF r this] have "pass_ok P (length ps) (set ps) s1 res" .
    with ok1 False show ?thesis by (auto intro: pass_ok_trans)
  qed
qed

lemma announce_facts:
  "passwords (announce P l s) = passwords s" "count (announce P l s) = count s"
  "progress_calls (announce P l s) = progress_calls s"
  by (auto simp: announce_def call_pattern_def split: option.splits prod.splits)

lemma announce_wf: "gen_inv P (announce P l s) = gen_inv P s"
  by (simp add: gen_inv_def announce_facts)

lemma pass_ok_announce:
  "pass_ok P B A (announce P l s) res = pass_ok P B A s res"
  by (simp add: pass_ok_def announce_facts)

lemma mixed_loop_ok:
  "mixed_loop P ls ds s = res \<Longrightarrow> gen_inv P s \<Longrightarrow> enat (count s) < cap P \<Longrightarrow>
     pass_ok P (length ls * length ds) {l @ d | l d. l \<in> set ls \<and> d \<in> set ds} s res"
proof (induction ls arbitrary: s)
  case Nil
  then show ?case by (auto intro: pass_ok_refl)
next
  case (Cons l ls)
  obtain s1 r1 where e: "emit_all P (map (\<lambda>d. l @ d) ds) s = (s1, r1)"
    by (cases "emit_all P (map (\<lambda>d. l @ d) ds) s")
  have ok1: "pass_ok P (length ds) ((\<lambda>d. l @ d) ` set ds) s (s1, r1)"
    using emit_all_ok[OF e Cons.prems(2,3)] by simp
  show ?case
  proof (cases r1)
    case True
    with e Cons.prems(1) have "res = (s1, True)" by simp
    moreover from ok1 True have "pass_ok P (length ds) ((\<lambda>d. l @ d) ` set ds) s (s1, True)" by simp
    then have "pass_ok P (length (l # ls) * length ds) {l' @ d | l' d. l' \<in> set (l # ls) \<and> d \<in> set ds} s (s1, True)"
      by (rule pass_ok_stop) auto
    ultimately show ?thesis by simp
  next
    case False
    with e Cons.prems(1) have r: "mixed_loop P ls ds s1 = res" by simp
    from ok1 False have "gen_inv P s1" "enat (count s1) < cap P" by (auto dest: pass_ok_cap)
    from Cons.IH[OF r this]
    have b: "pass_ok P (length ls * length ds) {l' @ d | l' d. l' \<in> set ls \<and> d \<in> set ds} s1 res" .
    from ok1 False have a: "pass_ok P (length ds) ((\<lambda>d. l @ d) ` set ds) s (s1, False)" by simp
    show ?thesis by (rule pass_ok_trans[OF a b]) auto
  qed
qed


lemma length_product_repeat: "length (product_repeat cs n) = length cs ^ n"
  by (induction n) (simp_all add: length_concat comp_def sum_list_triv)

lemma length_in_product_repeat: "p \<in> set (product_repeat cs n) \<Longrightarrow> length p = n"
  by (induction n arbitrary: p) auto

lemma length_lowercase: "length ascii_lowercase = 26"
  by (simp add: ascii_lowercase_def)

lemma length_digits: "length digits = 10"
  by (simp add: digits_def)

lemma length_chars: "length (chars g) = char_count g"
  by (simp add: chars_def char_count_def ascii_lowercase_def ascii_uppercase_def digits_def
        special_chars_def Let_def)

lemma pow_add_le: "(a::nat) ^ Suc k + b ^ Suc k \<le> (a + b) ^ Suc k"
proof (induction k)
  case 0
  then show ?case by simp
next
  case (Suc k)
  have "(a + b) * (a ^ Suc k + b ^ Suc k)
          = a ^ Suc (Suc k) + b ^ Suc (Suc k) + (a * b ^ Suc k + b * a ^ Suc k)"
    by (simp add: algebra_simps)
  then have "a ^ Suc (Suc k) + b ^ Suc (Suc k) \<le> (a + b) * (a ^ Suc k + b ^ Suc k)"
    by simp
  also have "\<dots> \<le> (a + b) * (a + b) ^ Suc k"
    using Suc by (rule mult_le_mono2)
  finally show ?case by simp
qed

lemma mixed_count_le:
  assumes "0 < h" "0 < m"
  shows "(a::nat) ^ (h + m) + b ^ (h + m) + a ^ h * b ^ m \<le> (a + b) ^ (h + m)"
proof -
  from assms obtain h' m' where hm: "h = Suc h'" "m = Suc m'"
    by (metis Suc_pred)
  have "a ^ (h + m) + b ^ (h + m) + a ^ h * b ^ m \<le> (a ^ h + b ^ h) * (a ^ m + b ^ m)"
    by (simp add: algebra_simps power_add)
  also have "\<dots> \<le> (a + b) ^ h * (a + b) ^ m"
    unfolding hm by (rule mult_le_mono) (rule pow_add_le)+
  finally show ?thesis by (simp add: power_add)
qed

lemma fallback_count_le:
  assumes "4 \<le> len"
  shows "fallback_count g len \<le> char_count g ^ len"
proof (cases "use_lowercase g")
  case lo: True
  show ?thesis
  proof (cases "use_digits g")
    case di: True
    have "(26::nat) ^ (len div 2 + (len - len div 2)) + 10 ^ (len div 2 + (len - len div 2))
            + 26 ^ (len div 2) * 10 ^ (len - len div 2) \<le> (26 + 10) ^ (len div 2 + (len - len div 2))"
      using assms by (intro mixed_count_le) auto
    moreover have "len div 2 + (len - len div 2) = len" by simp
    ultimately have "fallback_count g len \<le> (36::nat) ^ len"
      using lo di by (simp add: fallback_count_def)
    also have "(36::nat) ^ len \<le> char_count g ^ len"
      using lo di by (intro power_mono) (simp_all add: char_count_def)
    finally show ?thesis .
  next
    case False
    then have "fallback_count g len = 26 ^ len" using lo by (simp add: fallback_count_def)
    also have "(26::nat) ^ len \<le> char_count g ^ len"
      using lo by (intro power_mono) (simp_all add: char_count_def)
    finally show ?thesis .
  qed
next
  case nlo: False
  show ?thesis
  proof (cases "use_digits g")
    case True
    then have "fallback_count g len = 10 ^ len" using nlo by (simp add: fallback_count_def)
    also have "(10::nat) ^ len \<le> char_count g ^ len"
      using True by (intro power_mono) (simp_all add: char_count_def)
    finally show ?thesis .
  next
    case False
    then show ?thesis using nlo by (simp add: fallback_count_def)
  qed
qed

lemma lowercase_pass_ok:
  assumes "lowercase_pass g P len s = res" "gen_inv P s" "enat (count s) < cap P"
  shows "pass_ok P (if use_lowercase g then 26 ^ len else 0) {p. length p = len} s res"
proof (cases "use_lowercase g")
  case True
  let ?s = "announce P (''Length '' @ str_nat len @ '' lowercase passwords'') s"
  from assms True have "emit_all P (product_repeat ascii_lowercase len) ?s = res"
    by (simp add: lowercase_pass_def)
  then have "pass_ok P (length (product_repeat ascii_lowercase len))
               (set (product_repeat ascii_lowercase len)) ?s res"
    by (rule emit_all_ok) (simp_all add: announce_wf announce_facts assms)
  then have "pass_ok P (26 ^ len) (set (product_repeat ascii_lowercase len)) s res"
    by (simp add: pass_ok_announce length_product_repeat length_lowercase)
  then have "pass_ok P (26 ^ len) {p. length p = len} s res"
    unfolding pass_ok_def using length_in_product_repeat by blast
  with True show ?thesis by simp
next
  case False
  with assms show ?thesis by (auto simp: lowercase_pass_def intro: pass_ok_refl)
qed

lemma numeric_pass_ok:
  assumes "numeric_pass g P len s = res" "gen_inv P s" "enat (count s) < cap P"
  shows "pass_ok P (if use_digits g then 10 ^ len else 0) {p. length p = len} s res"
proof (cases "use_digits g")
  case True
  let ?s = "announce P (''Length '' @ str_nat len @ '' numeric passwords'') s"
  from assms True have "emit_all P (product_repeat digits len) ?s = res"
    by (simp add: numeric_pass_def)
  then have "pass_ok P (length (product_repeat digits len))
               (set (product_repeat digits len)) ?s res"
    by (rule emit_all_ok) (simp_all add: announce_wf announce_facts assms)
  then have "pass_ok P (10 ^ len) (set (product_repeat digits len)) s res"
    by (simp add: pass_ok_announce length_product_repeat length_digits)
  then have "pass_ok P (10 ^ len) {p. length p = len} s res"
    unfolding pass_ok_def using length_in_product_repeat by blast
  with True show ?thesis by simp
next
  case False
  with assms show ?thesis by (auto simp: numeric_pass_def intro: pass_ok_refl)
qed

lemma mixed_pass_ok:
  assumes "mixed_pass g P len s = res" "gen_inv P s" "enat (count s) < cap P"
  shows "pass_ok P (if len \<ge> 4 \<and> use_lowercase g \<and> use_digits g
                    then 26 ^ (len div 2) * 10 ^ (len - len div 2) else 0) {p. length p = len} s res"
proof (cases "len \<ge> 4 \<and> use_lowercase g \<and> use_digits g")
  case True
  let ?s = "announce P (''Length '' @ str_nat len @ '' mixed letter-number passwords'') s"
  let ?ls = "product_repeat ascii_lowercase (len div 2)"
  let ?ds = "product_repeat digits (len - len div 2)"
  from assms True have "mixed_loop P ?ls ?ds ?s = res"
    by (simp add: mixed_pass_def Let_def)
  then have "pass_ok P (length ?ls * length ?ds) {l @ d | l d. l \<in> set ?ls \<and> d \<in> set ?ds} ?s res"
    by (rule mixed_loop_ok) (simp_all add: announce_wf announce_facts assms)
  then have "pass_ok P (26 ^ (len div 2) * 10 ^ (len - len div 2))
               {l @ d | l d. l \<in> set ?ls \<and> d \<in> set ?ds} s res"
    by (simp add: pass_ok_announce length_product_repeat length_digits length_lowercase)
  moreover have "{l @ d | l d. l \<in> set ?ls \<and> d \<in> set ?ds} \<subseteq> {p. length p = len}"
    by (auto dest!: length_in_product_repeat)
  ultimately have "pass_ok P (26 ^ (len div 2) * 10 ^ (len - len div 2)) {p. length p = len} s res"
    unfolding pass_ok_def by blast
  with True show ?thesis by simp
next
  case False
  with assms show ?thesis by (auto simp: mixed_pass_def intro: pass_ok_refl)
qed

lemma full_product_ok:
  assumes "emit_all P (product_repeat (chars g) len) (announce P l s) = res"
    "gen_inv P s" "enat (count s) < cap P"
  shows "pass_ok P (char_count g ^ len) {p. length p = len} s res"
proof -
  from assms(1) have "pass_ok P (length (product_repeat (chars g) len))
               (set (product_repeat (chars g) len)) (announce P l s) res"
    by (rule emit_all_ok) (simp_all add: announce_wf announce_facts assms)
  then have "pass_ok P (char_count g ^ len) (set (product_repeat (chars g) len)) s res"
    by (simp add: pass_ok_announce length_product_repeat length_chars)
  then show ?thesis
    unfolding pass_ok_def using length_in_product_repeat by blast
qed

lemma fallback_ok:
  assumes "(case lowercase_pass g P len s of
                (s1, True) \<Rightarrow> (s1, True)
              | (s1, False) \<Rightarrow>
                  (case numeric_pass g P len s1 of
                     (s2, True) \<Rightarrow> (s2, True)
                   | (s2, False) \<Rightarrow> mixed_pass g P len s2)) = res"
    "gen_inv P s" "enat (count s) < cap P"
  shows "pass_ok P (fallback_count g len) {p. length p = len} s res"
proof -
  obtain s1 r1 where e1: "lowercase_pass g P len s = (s1, r1)" by (cases "lowercase_pass g P len s")
  note ok1 = lowercase_pass_ok[OF e1 assms(2,3)]
  show ?thesis
  proof (cases r1)
    case True
    with e1 assms(1) have "res = (s1, True)" by simp
    moreover from ok1 True have "pass_ok P (fallback_count g len) {p. length p = len} s (s1, True)"
      by (auto intro: pass_ok_stop simp: fallback_count_def)
    ultimately show ?thesis by simp
  next
    case r1: False
    with ok1 have a: "pass_ok P (if use_lowercase g then 26 ^ len else 0) {p. length p = len} s (s1, False)"
      by simp
    then have c1: "gen_inv P s1" "enat (count s1) < cap P" by (auto dest: pass_ok_cap)
    obtain s2 r2 where e2: "numeric_pass g P len s1 = (s2, r2)" by (cases "numeric_pass g P len s1")
    note ok2 = numeric_pass_ok[OF e2 c1]
    show ?thesis
    proof (cases r2)
      case True
      with e1 e2 r1 assms(1) have "res = (s2, True)" by simp
      moreover from ok2 True have "pass_ok P (fallback_count g len) {p. length p = len} s (s2, True)"
        by (auto intro!: pass_ok_trans[OF a] simp: fallback_count_def)
      ultimately show ?thesis by simp
    next
      case r2: False
      with ok2 have b: "pass_ok P (if use_digits g then 10 ^ len else 0) {p. length p = len} s1 (s2, False)"
        by simp
      have ab: "pass_ok P ((if use_lowercase g then 26 ^ len else 0) + (if use_digits g then 10 ^ len else 0))
                 {p. length p = len} s (s2, False)"
        by (rule pass_ok_trans[OF a b]) auto
      from b have c2: "gen_inv P s2" "enat (count s2) < cap P" by (auto dest: pass_ok_cap)
      from e1 e2 r1 r2 assms(1) have e3: "mixed_pass g P len s2 = res" by simp
      note ok3 = mixed_pass_ok[OF e3 c2]
      show ?thesis
        by (rule pass_ok_trans[OF ab ok3]) (auto simp: fallback_count_def)
    qed
  qed
qed

lemma gen_length_ok:
  assumes "gen_length g P len s = res" "gen_inv P s" "enat (count s) < cap P"
  shows "pass_ok P (char_count g ^ len) {p. length p = len} s res"
proof -
  consider (short) "enat (length (chars g) ^ len + count s) > cap P" "len \<le> 3"
    | (long) "enat (length (chars g) ^ len + count s) > cap P" "\<not> len \<le> 3"
    | (full) "\<not> enat (length (chars g) ^ len + count s) > cap P" by blast
  then show ?thesis
  proof cases
    case short
    with assms(1) show ?thesis
      by (intro full_product_ok[OF _ assms(2,3)]) (simp add: gen_length_def Let_def)
  next
    case long
    with assms(1) have "pass_ok P (fallback_count g len) {p. length p = len} s res"
      by (intro fallback_ok[OF _ assms(2,3)]) (simp add: gen_length_def Let_def)
    moreover from long have "fallback_count g len \<le> char_count g ^ len"
      by (intro fallback_count_le) simp
    ultimately show ?thesis
      unfolding pass_ok_def by auto
  next
    case full
    with assms(1) show ?thesis
      by (intro full_product_ok[OF _ assms(2,3)]) (simp add: gen_length_def Let_def)
  qed
qed

lemma gen_lengths_ok:
  "gen_lengths g P lens s = res \<Longrightarrow> gen_inv P s \<Longrightarrow> enat (count s) < cap P \<Longrightarrow>
     pass_ok P (\<Sum>len\<leftarrow>lens. char_count g ^ len) {p. length p \<in> set lens} s res"
proof (induction lens arbitrary: s)
  case Nil
  then show ?case by (auto intro: pass_ok_refl)
next
  case (Cons len lens)
  obtain s1 r1 where e: "gen_length g P len s = (s1, r1)" by (cases "gen_length g P len s")
  note ok1 = gen_length_ok[OF e Cons.prems(2,3)]
  show ?case
  proof (cases r1)
    case True
    with e Cons.prems(1) have "res = (s1, True)" by simp
    moreover from ok1 True have "pass_ok P (\<Sum>l\<leftarrow>len # lens. char_count g ^ l)
        {p. length p \<in> set (len # lens)} s (s1, True)"
      by (auto intro: pass_ok_stop)
    ultimately show ?thesis by simp
  next
    case False
    with e Cons.prems(1) have r: "gen_lengths g P lens s1 = res" by simp
    from ok1 False have a: "pass_ok P (char_count g ^ len) {p. length p = len} s (s1, False)" by simp
    then have "gen_inv P s1" "enat (count s1) < cap P" by (auto dest: pass_ok_cap)
    from Cons.IH[OF r this]
    have b: "pass_ok P (\<Sum>l\<leftarrow>lens. char_count g ^ l) {p. length p \<in> set lens} s1 res" .
    show ?thesis by (rule pass_ok_trans[OF a b]) auto
  qed
qed

lemma sum_list_lengths:
  "(\<Sum>len\<leftarrow>[a ..< b + 1]. (n::nat) ^ len) = (\<Sum>L = a .. b. n ^ L)"
proof -
  have "(\<Sum>len\<leftarrow>[a ..< b + 1]. n ^ len) = (\<Sum>L = a ..< b + 1. n ^ L)"
    by (simp only: interv_sum_list_conv_sum_set_nat set_upt)
  also have "{a ..< b + 1} = {a .. b}" by auto
  finally show ?thesis .
qed

lemma generate_run_ok:
  assumes "0 < MAX_PASSWORDS g"
  shows "gen_inv (params g C) (generate_run g C u)"
    and "count (generate_run g C u) \<le> (\<Sum>L = min_length g .. max_length g. char_count g ^ L)"
    and "enat (count (generate_run g C u)) \<le> MAX_PASSWORDS g"
proof -
  let ?P = "params g C"
  let ?s0 = "\<lparr> passwords = [], count = 0, cb_state = u, progress_calls = [] \<rparr>"
  let ?s1 = "case progress_callback C of
                  Some f \<Rightarrow> snd (call_progress f 0 (total_estimate ?P) ?s0)
                | None \<Rightarrow> ?s0"
  have s1: "gen_inv ?P ?s1" "count ?s1 = 0"
    by (auto simp: gen_inv_def call_progress_def split: option.splits prod.splits)
  have cap: "cap ?P = MAX_PASSWORDS g" by (simp add: params_def)
  obtain s2 r where e: "gen_lengths g ?P [min_length g ..< max_length g + 1] ?s1 = (s2, r)"
    by (cases "gen_lengths g ?P [min_length g ..< max_length g + 1] ?s1")
  have "enat (count ?s1) < cap ?P" using assms s1(2) cap by (simp add: zero_enat_def)
  from gen_lengths_ok[OF e s1(1) this]
  have ok: "pass_ok ?P (\<Sum>L = min_length g .. max_length g. char_count g ^ L)
              {p. length p \<in> set [min_length g ..< max_length g + 1]} ?s1 (s2, r)"
    by (simp only: sum_list_lengths)
  then have f2: "gen_inv ?P s2" "count s2 \<le> (\<Sum>L = min_length g .. max_length g. char_count g ^ L)"
    "enat (count s2) \<le> cap ?P"
    using s1(2) by (auto simp: pass_ok_def capped_def split: if_splits)
  have run: "generate_run g C u =
     (if r then s2 else case progress_callback C of
                Some f \<Rightarrow> snd (call_progress f (count s2) (total_estimate ?P) s2)
              | None \<Rightarrow> s2)"
    using e unfolding generate_run_def Let_def by (simp split: bool.splits)
  show "gen_inv ?P (generate_run g C u)"
    using f2(1) unfolding run
    by (auto simp: gen_inv_def call_progress_def split: option.splits prod.splits)
  show "count (generate_run g C u) \<le> (\<Sum>L = min_length g .. max_length g. char_count g ^ L)"
    using f2(2) unfolding run
    by (auto simp: call_progress_def split: option.splits prod.splits)
  show "enat (count (generate_run g C u)) \<le> MAX_PASSWORDS g"
    using f2(3) cap unfolding run
    by (auto simp: call_progress_def split: option.splits prod.splits)
qed

lemma generate_count_le_estimate:
  assumes "0 < MAX_PASSWORDS g"
  shows "count (generate_run g C u) \<le> estimate_count g"
  using generate_run_ok(2,3)[OF assms, of C u]
  by (cases "MAX_PASSWORDS g") (simp_all add: estimate_count_eq)

text \<open>
  Claim C1. With \<^verbatim>\<open>no_limit=False\<close>, whatever the lengths, the character classes
  and the two callbacks (absent, or any functions of the caller's state), the estimate is
  at most 1000000 and the returned list has at most 1000000 entries.
\<close>

theorem generate_within_cap:
  "estimate_count (PasswordGenerator mn mx lo up di sp False) \<le> 1000000
   \<and> length (generate_passwords (PasswordGenerator mn mx lo up di sp False) C u) \<le> 1000000"
proof -
  let ?g = "PasswordGenerator mn mx lo up di sp False"
  have m: "MAX_PASSWORDS ?g = enat 1000000" by (simp add: PasswordGenerator_def)
  then have pos: "0 < MAX_PASSWORDS ?g" by (simp add: zero_enat_def)
  have "estimate_count ?g \<le> 1000000" by (simp add: estimate_count_eq m)
  moreover have "length (generate_passwords ?g C u) = count (generate_run ?g C u)"
    using generate_run_ok(1)[OF pos, of C u] by (simp add: gen_inv_def generate_passwords_def)
  moreover have "count (generate_run ?g C u) \<le> 1000000"
    using generate_run_ok(3)[OF pos, of C u] by (simp add: m)
  ultimately show ?thesis by simp
qed

text \<open>
  Claim C10. For every generator and every behaviour of the callbacks, the returned list
  is no longer than \<^verbatim>\<open>estimate_count()\<close>, and every call of the progress callback,
  at any point of the run, passed the estimate as its second argument and a count no
  larger than it as its first. The counter only grows, so the bound on the final count
  bounds it throughout the run.
\<close>

theorem emitted_within_estimate:
  "length (generate_passwords (PasswordGenerator mn mx lo up di sp nl) C u)
      \<le> estimate_count (PasswordGenerator mn mx lo up di sp nl)
   \<and> (\<forall>(c, t) \<in> set (progress_calls (generate_run (PasswordGenerator mn mx lo up di sp nl) C u)).
         t = estimate_count (PasswordGenerator mn mx lo up di sp nl) \<and> c \<le> t)"
proof -
  let ?g = "PasswordGenerator mn mx lo up di sp nl"
  have pos: "0 < MAX_PASSWORDS ?g" by (simp add: PasswordGenerator_def zero_enat_def)
  note w = generate_run_ok(1)[OF pos, of C u]
  note le = generate_count_le_estimate[OF pos, of C u]
  have t: "total_estimate (params ?g C) = estimate_count ?g" by (simp add: params_def)
  have "length (generate_passwords ?g C u) \<le> estimate_count ?g"
    using w le by (simp add: gen_inv_def generate_passwords_def)
  moreover have "\<forall>(c, t) \<in> set (progress_calls (generate_run ?g C u)).
         t = estimate_count ?g \<and> c \<le> t"
    using w le t unfolding gen_inv_def by fastforce
  ultimately show ?thesis by blast
qed


theorem emitted_within_estimate_witness:
  "length (generate_passwords (PasswordGenerator 1 1 False False False True False)
       \<lparr>progress_callback = Some (\<lambda>c t u. (True, u)), pattern_callback = None\<rparr> ()) \<le> 8
   \<and> list_all (\<lambda>(c, t). t = 8 \<and> c \<le> t)
       (progress_calls (generate_run (PasswordGenerator 1 1 False False False True False)
          \<lparr>progress_callback = Some (\<lambda>c t u. (True, u)), pattern_callback = None\<rparr> ()))
   \<and> estimate_count (PasswordGenerator 1 1 False False False True False) = 8"
proof -
  have e: "estimate_count (PasswordGenerator 1 1 False False False True False) = 8"
    by (simp add: estimate_count_def PasswordGenerator_def char_count_def)
  show ?thesis
    using emitted_within_estimate[of 1 1 False False False True False
        "\<lparr>progress_callback = Some (\<lambda>c t u. (True, u)), pattern_callback = None\<rparr>" "()"]
    unfolding e by (simp add: list_all_iff)
qed

section \<open>What the generator emits when no callback stops it\<close>


lemma snoc_cons_commute:
  "concat (map (\<lambda>c. map ((#) c) (concat (map (\<lambda>p. map (\<lambda>d. p @ [d]) cs) ps))) xs)
     = concat (map (\<lambda>q. map (\<lambda>d. q @ [d]) cs) (concat (map (\<lambda>c. map ((#) c) ps) xs)))"
  by (induction xs) (simp_all add: map_concat comp_def)

lemma product_repeat_snoc:
  "product_repeat cs (Suc n) = concat (map (\<lambda>p. map (\<lambda>c. p @ [c]) cs) (product_repeat cs n))"
proof (induction n)
  case 0
  show ?case by (induction cs) simp_all
next
  case (Suc n)
  have "product_repeat cs (Suc (Suc n))
          = concat (map (\<lambda>c. map ((#) c) (product_repeat cs (Suc n))) cs)" by simp
  also have "\<dots> = concat (map (\<lambda>c. map ((#) c)
                 (concat (map (\<lambda>p. map (\<lambda>d. p @ [d]) cs) (product_repeat cs n)))) cs)"
    by (simp only: Suc.IH)
  also have "\<dots> = concat (map (\<lambda>q. map (\<lambda>d. q @ [d]) cs)
                        (concat (map (\<lambda>c. map ((#) c) (product_repeat cs n)) cs)))"
    by (rule snoc_cons_commute)
  finally show ?case by simp
qed

lemma call_progress_go:
  "never_cancels C \<Longrightarrow> progress_callback C = Some f \<Longrightarrow> fst (call_progress f c t s)"
  by (simp add: never_cancels_def call_progress_def case_prod_beta)

lemma call_pattern_go:
  "never_cancels C \<Longrightarrow> pattern_callback C = Some f \<Longrightarrow> fst (call_pattern f p s)"
  by (simp add: never_cancels_def call_pattern_def case_prod_beta)

lemma count_call_pattern: "count (snd (call_pattern f p s)) = count s"
  by (simp add: call_pattern_def case_prod_beta)

lemma count_call_progress: "count (snd (call_progress f c t s)) = count s"
  by (simp add: call_progress_def case_prod_beta)

lemma emit_no_cancel:
  assumes "never_cancels (cbs P)" "emit P p s = (s', r)"
  shows "r \<longleftrightarrow> cap P \<le> enat (count s + 1)"
proof -
  have "snd (emit P p s) \<longleftrightarrow> cap P \<le> enat (count s + 1)"
    unfolding emit_def Let_def case_prod_beta
    by (simp add: call_progress_go[OF assms(1)] call_pattern_go[OF assms(1)]
          count_call_pattern count_call_progress split: option.splits)
  with assms(2) show ?thesis by simp
qed

lemma take_enat_Cons_stop:
  assumes "enat c < k" "k \<le> enat (c + 1)"
  shows "take_enat (k - enat c) (p # ps) = [p]"
proof -
  from assms obtain m where "k = enat m" by (cases k) auto
  with assms have "m = c + 1" by simp
  then show ?thesis using \<open>k = enat m\<close> by simp
qed

lemma take_enat_Cons_go:
  assumes "\<not> k \<le> enat (c + 1)"
  shows "take_enat (k - enat c) (p # ps) = p # take_enat (k - enat (c + 1)) ps"
proof (cases k)
  case (enat m)
  with assms have "c + 1 < m" by simp
  then have "m - c = Suc (m - (c + 1))" by simp
  then show ?thesis using enat by simp
next
  case infinity
  then show ?thesis by simp
qed

lemma emit_all_exact:
  assumes "never_cancels (cbs P)"
  shows "enat (count s) < cap P \<Longrightarrow> emit_all P ps s = (s', r) \<Longrightarrow>
     passwords s' = passwords s @ take_enat (cap P - enat (count s)) ps
     \<and> count s' = count s + length (take_enat (cap P - enat (count s)) ps)
     \<and> (r \<longleftrightarrow> ps \<noteq> [] \<and> cap P \<le> enat (count s + length ps))"
proof (induction ps arbitrary: s)
  case Nil
  then show ?case by (cases "cap P - enat (count s)") auto
next
  case (Cons p ps)
  obtain s1 r1 where e: "emit P p s = (s1, r1)" by (cases "emit P p s")
  note f = emit_facts[OF e]
  note r1 = emit_no_cancel[OF assms e]
  show ?case
  proof (cases r1)
    case True
    with e Cons.prems(2) have eq: "s' = s1" "r = True" by auto
    from True r1 have le: "cap P \<le> enat (count s + 1)" by simp
    have t: "take_enat (cap P - enat (count s)) (p # ps) = [p]"
      by (rule take_enat_Cons_stop[OF Cons.prems(1) le])
    have "cap P \<le> enat (count s + length (p # ps))"
      using le by (cases "cap P") auto
    then show ?thesis using eq f(1,2) t by simp
  next
    case False
    with e Cons.prems(2) have rest: "emit_all P ps s1 = (s', r)" by simp
    from False r1 have nle: "\<not> cap P \<le> enat (count s + 1)" by simp
    then have lt: "enat (count s1) < cap P" using f(2) by simp
    note ih = Cons.IH[OF lt rest]
    have t: "take_enat (cap P - enat (count s)) (p # ps) = p # take_enat (cap P - enat (count s + 1)) ps"
      by (rule take_enat_Cons_go[OF nle])
    have "r \<longleftrightarrow> cap P \<le> enat (count s + length (p # ps))"
    proof (cases ps)
      case Nil
      with rest have "r = False" by simp
      with nle Nil show ?thesis by simp
    next
      case (Cons a list)
      with ih f(2) show ?thesis by simp
    qed
    then show ?thesis using ih f(1,2) t by simp
  qed
qed

lemma emit_all_append:
  "emit_all P (xs @ ys) s =
     (case emit_all P xs s of (s', True) \<Rightarrow> (s', True) | (s', False) \<Rightarrow> emit_all P ys s')"
  by (induction xs arbitrary: s) (auto split: prod.splits bool.splits)

lemma mixed_loop_flat:
  "mixed_loop P ls ds s = emit_all P (concat (map (\<lambda>l. map (\<lambda>d. l @ d) ds) ls)) s"
  by (induction ls arbitrary: s) (auto simp: emit_all_append split: prod.splits bool.splits)

lemma gen_lengths_append:
  "gen_lengths g P (xs @ ys) s =
     (case gen_lengths g P xs s of (s', True) \<Rightarrow> (s', True) | (s', False) \<Rightarrow> gen_lengths g P ys s')"
  by (induction xs arbitrary: s) (auto split: prod.splits bool.splits)

lemma emits_exactly_emit_all:
  "never_cancels (cbs P) \<Longrightarrow> enat (count s) < cap P \<Longrightarrow> emits_exactly P ps s (emit_all P ps s)"
  using emit_all_exact[of P s ps "fst (emit_all P ps s)" "snd (emit_all P ps s)"]
  by (simp add: emits_exactly_def)

lemma emits_exactly_nothing: "emits_exactly P [] s (s, False)"
  by (cases "cap P - enat (count s)") (simp_all add: emits_exactly_def)

lemma emits_exactly_announce:
  "emits_exactly P X (announce P l s) res = emits_exactly P X s res"
  by (simp add: emits_exactly_def announce_facts)

lemma take_enat_all: "enat (c + length X) < k \<Longrightarrow> take_enat (k - enat c) X = X"
  by (cases k) auto

lemma take_enat_append_go:
  "enat (c + length X) < k \<Longrightarrow>
     take_enat (k - enat c) (X @ Y) = X @ take_enat (k - enat (c + length X)) Y"
  by (cases k) auto

lemma take_enat_append_stop:
  "k \<le> enat (c + length X) \<Longrightarrow> take_enat (k - enat c) (X @ Y) = take_enat (k - enat c) X"
  by (cases k) auto

lemma emits_exactly_room:
  assumes "emits_exactly P X s (s1, False)" "enat (count s) < cap P"
  shows "enat (count s + length X) < cap P" "count s1 = count s + length X"
    "passwords s1 = passwords s @ X"
proof -
  from assms show a: "enat (count s + length X) < cap P"
    by (cases "X = []") (auto simp: emits_exactly_def)
  from assms(1) show "count s1 = count s + length X" "passwords s1 = passwords s @ X"
    by (simp_all add: emits_exactly_def take_enat_all[OF a])
qed

lemma emits_exactly_seq:
  assumes "emits_exactly P X s (s1, False)" "enat (count s) < cap P" "emits_exactly P Y s1 res"
  shows "emits_exactly P (X @ Y) s res"
proof -
  note r = emits_exactly_room[OF assms(1,2)]
  have "take_enat (cap P - enat (count s)) (X @ Y)
          = X @ take_enat (cap P - enat (count s1)) Y"
    using take_enat_append_go[OF r(1)] r(2) by simp
  moreover have "(Y \<noteq> [] \<and> cap P \<le> enat (count s1 + length Y))
                  \<longleftrightarrow> (X @ Y \<noteq> [] \<and> cap P \<le> enat (count s + length (X @ Y)))"
    using r(1,2) by (cases "Y = []") (auto simp: add.assoc)
  ultimately show ?thesis
    using assms(3) r(2,3) by (simp add: emits_exactly_def)
qed

lemma emits_exactly_stop:
  assumes "emits_exactly P X s (s1, True)"
  shows "emits_exactly P (X @ Y) s (s1, True)"
proof -
  from assms have x: "X \<noteq> []" "cap P \<le> enat (count s + length X)"
    by (simp_all add: emits_exactly_def)
  have "cap P \<le> enat (count s + length (X @ Y))"
    using x(2) by (cases "cap P") auto
  then show ?thesis
    using assms x take_enat_append_stop[OF x(2)] by (simp add: emits_exactly_def)
qed

lemma lowercase_pass_exact:
  assumes "never_cancels (cbs P)" "enat (count s) < cap P"
  shows "emits_exactly P (if use_lowercase g then product_repeat ascii_lowercase len else []) s
           (lowercase_pass g P len s)"
  using assms
  by (simp add: lowercase_pass_def emits_exactly_nothing)
     (metis announce_facts(2) emits_exactly_announce emits_exactly_emit_all)

lemma numeric_pass_exact:
  assumes "never_cancels (cbs P)" "enat (count s) < cap P"
  shows "emits_exactly P (if use_digits g then product_repeat digits len else []) s
           (numeric_pass g P len s)"
  using assms
  by (simp add: numeric_pass_def emits_exactly_nothing)
     (metis announce_facts(2) emits_exactly_announce emits_exactly_emit_all)

lemma mixed_pass_exact:
  assumes "never_cancels (cbs P)" "enat (count s) < cap P" "4 \<le> len"
  shows "emits_exactly P (if use_lowercase g \<and> use_digits g
      then concat (map (\<lambda>prefix. map (\<lambda>suffix. prefix @ suffix) (product_repeat digits (len - len div 2)))
                       (product_repeat ascii_lowercase (len div 2)))
      else []) s (mixed_pass g P len s)"
  using assms
  by (simp add: mixed_pass_def emits_exactly_nothing mixed_loop_flat Let_def)
     (metis announce_facts(2) emits_exactly_announce emits_exactly_emit_all)

lemma fallback_exact:
  assumes nc: "never_cancels (cbs P)" and lt: "enat (count s) < cap P" and len: "3 < len"
    and over: "cap P < enat (length (chars g) ^ len + count s)"
  shows "emits_exactly P (fallback_spec g len) s (gen_length g P len s)"
proof -
  let ?A = "if use_lowercase g then product_repeat ascii_lowercase len else []"
  let ?B = "if use_digits g then product_repeat digits len else []"
  let ?C = "if use_lowercase g \<and> use_digits g
      then concat (map (\<lambda>prefix. map (\<lambda>suffix. prefix @ suffix) (product_repeat digits (len - len div 2)))
                       (product_repeat ascii_lowercase (len div 2)))
      else []"
  have fs: "fallback_spec g len = ?A @ (?B @ ?C)" by (simp add: fallback_spec_def)
  obtain s1 r1 where e1: "lowercase_pass g P len s = (s1, r1)" by (cases "lowercase_pass g P len s")
  have x1: "emits_exactly P ?A s (s1, r1)" using lowercase_pass_exact[OF nc lt, of g len] e1 by simp
  have gl: "gen_length g P len s =
     (case lowercase_pass g P len s of
                (s1, True) \<Rightarrow> (s1, True)
              | (s1, False) \<Rightarrow>
                  (case numeric_pass g P len s1 of
                     (s2, True) \<Rightarrow> (s2, True)
                   | (s2, False) \<Rightarrow> mixed_pass g P len s2))"
    using len over by (simp add: gen_length_def Let_def)
  show ?thesis
  proof (cases r1)
    case True
    with e1 gl have "gen_length g P len s = (s1, True)" by simp
    moreover from x1 True have "emits_exactly P (?A @ (?B @ ?C)) s (s1, True)"
      by (intro emits_exactly_stop) simp
    ultimately show ?thesis by (simp only: fs)
  next
    case r1: False
    with x1 have a: "emits_exactly P ?A s (s1, False)" by simp
    have lt1: "enat (count s1) < cap P"
      using emits_exactly_room(1,2)[OF a lt] by (metis dual_order.strict_trans2 enat_ord_simps(1) le_add1)
    obtain s2 r2 where e2: "numeric_pass g P len s1 = (s2, r2)" by (cases "numeric_pass g P len s1")
    have x2: "emits_exactly P ?B s1 (s2, r2)" using numeric_pass_exact[OF nc lt1, of g len] e2 by simp
    show ?thesis
    proof (cases r2)
      case True
      with e1 e2 r1 gl have g2: "gen_length g P len s = (s2, True)" by simp
      from x2 True have "emits_exactly P (?B @ ?C) s1 (s2, True)"
        by (intro emits_exactly_stop) simp
      then have "emits_exactly P (?A @ (?B @ ?C)) s (s2, True)"
        by (rule emits_exactly_seq[OF a lt])
      with g2 show ?thesis by (simp only: fs)
    next
      case r2: False
      with x2 have b: "emits_exactly P ?B s1 (s2, False)" by simp
      have lt2: "enat (count s2) < cap P"
        using emits_exactly_room(1,2)[OF b lt1] by (metis dual_order.strict_trans2 enat_ord_simps(1) le_add1)
      from e1 e2 r1 r2 gl have g3: "gen_length g P len s = mixed_pass g P len s2" by simp
      have "emits_exactly P ?C s2 (mixed_pass g P len s2)"
        using mixed_pass_exact[OF nc lt2, of len g] len by simp
      then have "emits_exactly P (?B @ ?C) s1 (mixed_pass g P len s2)"
        by (rule emits_exactly_seq[OF b lt1])
      then have "emits_exactly P (?A @ (?B @ ?C)) s (mixed_pass g P len s2)"
        by (rule emits_exactly_seq[OF a lt])
      with g3 show ?thesis by (simp only: fs)
    qed
  qed
qed

lemma enat_add_lt_left: "enat (a + b) < k \<Longrightarrow> enat a < k"
  by (cases k) auto

lemma full_length_exact:
  assumes nc: "never_cancels (cbs P)" and room: "enat (count s + length (chars g) ^ len) < cap P"
  shows "gen_length g P len s = (s', r) \<Longrightarrow>
     \<not> r \<and> passwords s' = passwords s @ product_repeat (chars g) len
     \<and> count s' = count s + length (chars g) ^ len"
proof -
  assume e: "gen_length g P len s = (s', r)"
  let ?X = "product_repeat (chars g) len"
  let ?s = "announce P (''All length '' @ str_nat len @ '' combinations'') s"
  have lt: "enat (count s) < cap P"
    using room by (rule enat_add_lt_left)
  have "\<not> cap P < enat (length (chars g) ^ len + count s)"
    using room by (simp add: add.commute)
  then have "gen_length g P len s = emit_all P ?X ?s"
    by (simp add: gen_length_def Let_def)
  moreover have "emits_exactly P ?X ?s (emit_all P ?X ?s)"
    using nc lt by (intro emits_exactly_emit_all) (simp_all add: announce_facts)
  ultimately have x: "emits_exactly P ?X s (s', r)"
    using e by (simp add: emits_exactly_announce)
  have lx: "length ?X = length (chars g) ^ len" by (rule length_product_repeat)
  from x room lx have "\<not> r" by (auto simp: emits_exactly_def)
  with x have "emits_exactly P ?X s (s', False)" by simp
  from emits_exactly_room(2,3)[OF this lt] \<open>\<not> r\<close> lx show ?thesis by simp
qed

lemma full_lengths_exact:
  assumes nc: "never_cancels (cbs P)"
  shows "enat (count s + (\<Sum>len\<leftarrow>lens. length (chars g) ^ len)) < cap P \<Longrightarrow>
     gen_lengths g P lens s = (s', r) \<Longrightarrow>
     \<not> r \<and> passwords s' = passwords s @ concat (map (product_repeat (chars g)) lens)
     \<and> count s' = count s + (\<Sum>len\<leftarrow>lens. length (chars g) ^ len)"
proof (induction lens arbitrary: s)
  case Nil
  then show ?case by simp
next
  case (Cons len lens)
  obtain s1 r1 where e: "gen_length g P len s = (s1, r1)" by (cases "gen_length g P len s")
  have "enat (count s + length (chars g) ^ len) < cap P"
    using Cons.prems(1) by (cases "cap P") auto
  note f = full_length_exact[OF nc this e]
  with e Cons.prems(2) have rest: "gen_lengths g P lens s1 = (s', r)" by simp
  have "enat (count s1 + (\<Sum>len\<leftarrow>lens. length (chars g) ^ len)) < cap P"
    using Cons.prems(1) f by (simp add: add.assoc)
  from Cons.IH[OF this rest] f show ?case by (simp add: add.assoc)
qed

lemma char_count_le: "char_count g \<le> 70"
  by (simp add: char_count_def)

lemma short_sum_bound:
  assumes "L \<le> 3"
  shows "(\<Sum>len\<leftarrow>[mn ..< L + 1]. char_count g ^ len) < 1000000"
proof -
  have "(\<Sum>len\<leftarrow>[mn ..< L + 1]. char_count g ^ len) = (\<Sum>len = mn ..< L + 1. char_count g ^ len)"
    by (simp only: interv_sum_list_conv_sum_set_nat set_upt)
  also have "\<dots> \<le> (\<Sum>len = mn ..< L + 1. 70 ^ len)"
    by (intro sum_mono power_mono char_count_le) simp
  also have "\<dots> \<le> (\<Sum>len \<in> {..< 4}. (70::nat) ^ len)"
    using assms by (intro sum_mono2) auto
  also have "\<dots> = (\<Sum>len \<in> {..< Suc (Suc (Suc (Suc 0)))}. (70::nat) ^ len)"
  proof -
    have "(4::nat) = Suc (Suc (Suc (Suc 0)))" by simp
    then show ?thesis by (simp only:)
  qed
  also have "\<dots> < 1000000"
    by simp
  finally show ?thesis .
qed

lemma filter_product_repeat:
  "filter (\<lambda>p. length p = L) (product_repeat cs len) = (if len = L then product_repeat cs len else [])"
  by (auto simp: filter_empty_conv filter_id_conv dest: length_in_product_repeat)

lemma filter_shorter:
  "\<forall>len \<in> set lens. len \<noteq> L \<Longrightarrow>
     filter (\<lambda>p. length p = L) (concat (map (product_repeat cs) lens)) = []"
  by (auto simp: filter_empty_conv dest: length_in_product_repeat)

lemma generate_run_passwords:
  "passwords (generate_run g C u) =
     passwords (fst (gen_lengths g (params g C) [min_length g ..< max_length g + 1]
       (case progress_callback C of
          Some f \<Rightarrow> snd (call_progress f 0 (total_estimate (params g C))
                      \<lparr> passwords = [], count = 0, cb_state = u, progress_calls = [] \<rparr>)
        | None \<Rightarrow> \<lparr> passwords = [], count = 0, cb_state = u, progress_calls = [] \<rparr>)))"
  unfolding generate_run_def Let_def
  by (auto simp: call_progress_def split: option.splits prod.splits bool.splits)

lemma upt_split3:
  assumes "mn \<le> L" "L \<le> mx"
  shows "[mn ..< mx + 1] = ([mn ..< L] @ [L]) @ [L + 1 ..< mx + 1]"
proof -
  from assms(2) have d: "mx + 1 = (L + 1) + (mx - L)" by simp
  from assms(1) have "mn \<le> L + 1" by simp
  then have "[mn ..< (L + 1) + (mx - L)] = [mn ..< L + 1] @ [L + 1 ..< (L + 1) + (mx - L)]"
    by (rule upt_add_eq_append)
  then have "[mn ..< mx + 1] = [mn ..< L + 1] @ [L + 1 ..< mx + 1]"
    by (simp only: d[symmetric])
  moreover have "[mn ..< L + 1] = [mn ..< L] @ [L]" using assms(1) by simp
  ultimately show ?thesis by simp
qed

text \<open>
  Claim C5. When no callback asks to stop, for every length \<open>L \<le> 3\<close> between the minimum
  and the maximum the candidates of length \<open>L\<close> in the returned list are exactly
  \<^verbatim>\<open>itertools.product(chars, repeat=L)\<close> over the character set in use, in that order
  (\<open>product_repeat_snoc\<close>: the last position varies fastest), with or without the limit.
\<close>

theorem short_lengths_fully_covered:
  assumes nc: "never_cancels C" and range: "mn \<le> L" "L \<le> mx" and short: "L \<le> 3"
  shows "filter (\<lambda>p. length p = L)
           (generate_passwords (PasswordGenerator mn mx lo up di sp nl) C u)
         = product_repeat (chars (PasswordGenerator mn mx lo up di sp nl)) L"
proof -
  define g where "g = PasswordGenerator mn mx lo up di sp nl"
  define P where "P = params g C"
  define s1 where "s1 = (case progress_callback C of
          Some f \<Rightarrow> snd (call_progress f 0 (total_estimate P)
                      \<lparr> passwords = [], count = 0, cb_state = u, progress_calls = [] \<rparr>)
        | None \<Rightarrow> \<lparr> passwords = [], count = 0, cb_state = u, progress_calls = [] \<rparr>)"
  define A where "A = [mn ..< L] @ [L]"
  define B where "B = [L + 1 ..< mx + 1]"
  have mm: "min_length g = mn" "max_length g = mx" by (simp_all add: g_def PasswordGenerator_def)
  have s1: "gen_inv P s1" "count s1 = 0" "passwords s1 = []"
    unfolding s1_def by (auto simp: gen_inv_def call_progress_def split: option.splits prod.splits)
  have cap: "cbs P = C" and big: "enat 1000000 \<le> cap P"
    by (simp_all add: P_def params_def g_def PasswordGenerator_def)
  have lens: "[min_length g ..< max_length g + 1] = A @ B"
    unfolding mm A_def B_def using range by (rule upt_split3)
  obtain sA rA where eA: "gen_lengths g P A s1 = (sA, rA)" by (cases "gen_lengths g P A s1")
  have "A = [mn ..< L + 1]" using range(1) by (simp add: A_def)
  then have "(\<Sum>len\<leftarrow>A. char_count g ^ len) < 1000000"
    using short_sum_bound[OF short] by simp
  then have "enat (\<Sum>len\<leftarrow>A. length (chars g) ^ len) < cap P"
    using big by (cases "cap P") (simp_all add: length_chars)
  then have room: "enat (count s1 + (\<Sum>len\<leftarrow>A. length (chars g) ^ len)) < cap P"
    by (simp only: s1(2) add_0)
  have ncP: "never_cancels (cbs P)" using nc by (simp only: cap)
  note fa = full_lengths_exact[OF ncP room eA]
  from fa have rA: "rA = False" by simp
  from fa have pA: "passwords sA = concat (map (product_repeat (chars g)) A)"
    by (simp add: s1(3))
  from fa room have cA: "enat (count sA) < cap P" by simp
  have lt1: "enat (count s1) < cap P" using room by (rule enat_add_lt_left)
  have invA: "gen_inv P sA"
    using gen_lengths_ok[OF eA s1(1) lt1] by (simp add: pass_ok_def)
  obtain sB rB where eB: "gen_lengths g P B sA = (sB, rB)" by (cases "gen_lengths g P B sA")
  from gen_lengths_ok[OF eB invA cA]
  obtain xs where xs: "passwords sB = passwords sA @ xs" "set xs \<subseteq> {p. length p \<in> set B}"
    by (auto simp: pass_ok_def)
  have whole: "gen_lengths g P (A @ B) s1 = (sB, rB)"
    using eA eB rA by (simp add: gen_lengths_append)
  have whole': "gen_lengths g (params g C) (A @ B)
       (case progress_callback C of
          Some f \<Rightarrow> snd (call_progress f 0 (total_estimate (params g C))
                      \<lparr> passwords = [], count = 0, cb_state = u, progress_calls = [] \<rparr>)
        | None \<Rightarrow> \<lparr> passwords = [], count = 0, cb_state = u, progress_calls = [] \<rparr>) = (sB, rB)"
    using whole unfolding s1_def P_def .
  have "passwords (generate_run g C u) = passwords sB"
    unfolding generate_run_passwords lens whole' by simp
  then have gp: "generate_passwords g C u
      = (concat (map (product_repeat (chars g)) [mn ..< L]) @ product_repeat (chars g) L) @ xs"
    unfolding generate_passwords_def xs(1) pA A_def by simp
  have "\<forall>p \<in> set xs. length p \<noteq> L"
  proof
    fix p assume "p \<in> set xs"
    with xs(2) have "length p \<in> set B" by blast
    then have "L + 1 \<le> length p" by (simp only: B_def set_upt atLeastLessThan_iff)
    then show "length p \<noteq> L" by simp
  qed
  then have fx: "filter (\<lambda>p. length p = L) xs = []"
    by (simp add: filter_empty_conv)
  have fl: "filter (\<lambda>p. length p = L) (concat (map (product_repeat (chars g)) [mn ..< L])) = []"
    by (rule filter_shorter) simp
  have fL: "filter (\<lambda>p. length p = L) (product_repeat (chars g) L) = product_repeat (chars g) L"
    by (simp add: filter_product_repeat)
  have "filter (\<lambda>p. length p = L) (generate_passwords g C u) = product_repeat (chars g) L"
    unfolding gp filter_append fx fl fL by simp
  then show ?thesis by (simp only: g_def)
qed

theorem short_lengths_fully_covered_witness:
  "never_cancels \<lparr>progress_callback = Some (\<lambda>c t (u::unit). (True, u)), pattern_callback = None\<rparr>
   \<and> (1::nat) \<le> 1 \<and> (1::nat) \<le> 3
   \<and> filter (\<lambda>p. length p = 1)
        (generate_passwords (PasswordGenerator 1 1 False False False True False)
           \<lparr>progress_callback = Some (\<lambda>c t u. (True, u)), pattern_callback = None\<rparr> ())
      = [''!'', ''@'', ''#'', ''$'', ''%'', ''^'', ''&'', ''*'']"
proof -
  have nc: "never_cancels \<lparr>progress_callback = Some (\<lambda>c t (u::unit). (True, u)), pattern_callback = None\<rparr>"
    by (simp add: never_cancels_def)
  have "product_repeat (chars (PasswordGenerator 1 1 False False False True False)) 1
          = [''!'', ''@'', ''#'', ''$'', ''%'', ''^'', ''&'', ''*'']"
    by (simp add: chars_def PasswordGenerator_def special_chars_def)
  with short_lengths_fully_covered[OF nc, of 1 1 1 False False False True False "()"] nc
  show ?thesis by simp
qed

section \<open>The subset generated for a long length\<close>

text \<open>
  When a length over 3 would take the list past the cap and no callback stops the run,
  the candidates appended for that length are \<open>fallback_spec\<close>, cut where the cap is
  reached: the passes are guarded by the flags \<^verbatim>\<open>use_lowercase\<close> and
  \<^verbatim>\<open>use_digits\<close>.
\<close>

lemma fallback_order_by_flags:
  assumes "never_cancels (cbs P)" "enat (count s) < cap P" "3 < len"
    and "cap P < enat (length (chars g) ^ len + count s)"
  shows "passwords (fst (gen_length g P len s))
           = passwords s @ take_enat (cap P - enat (count s)) (fallback_spec g len)"
  using fallback_exact[OF assms] by (simp add: emits_exactly_def)

lemma gen_lengths_single:
  "fst (gen_lengths g P [l] s) = fst (gen_length g P l s)"
proof (cases "gen_length g P l s")
  case (Pair s' r)
  then show ?thesis by (cases r) simp_all
qed

lemma ticked_lowercase_length_5:
  fixes u :: 'a
  shows "passwords (fst (gen_length (PasswordGenerator 5 5 True False False False False)
      (params (PasswordGenerator 5 5 True False False False False) \<lparr>progress_callback = None, pattern_callback = None\<rparr>) 5
       \<lparr> passwords = [], count = 0, cb_state = u, progress_calls = [] \<rparr>))
   = take 1000000 (product_repeat ascii_lowercase 5)"
proof -
  let ?h = "PasswordGenerator 5 5 True False False False False"
  let ?N = "\<lparr>progress_callback = None, pattern_callback = None\<rparr> :: 'a callbacks"
  let ?s0 = "\<lparr> passwords = [], count = 0, cb_state = u, progress_calls = [] \<rparr>"
  have hl: "length (chars ?h) ^ 5 = 11881376"
    by (simp add: length_chars char_count_def PasswordGenerator_def)
  have hf: "use_lowercase ?h = True" "use_digits ?h = False"
    by (simp_all add: PasswordGenerator_def)
  have hp: "cap (params ?h ?N) = enat 1000000" "cbs (params ?h ?N) = ?N"
    by (simp_all add: params_def PasswordGenerator_def)
  have a: "never_cancels (cbs (params ?h ?N))" by (simp add: hp never_cancels_def)
  have b: "enat (count ?s0) < cap (params ?h ?N)" by (simp add: hp)
  have c: "cap (params ?h ?N) < enat (length (chars ?h) ^ 5 + count ?s0)" by (simp add: hp hl)
  have d: "3 < (5::nat)" by simp
  note r = fallback_order_by_flags[OF a b d c]
  show ?thesis
    unfolding r by (simp add: hp fallback_spec_def hf zero_enat_def[symmetric])
qed

text \<open>
  Claim C6. With no class selected the character set in use is the lowercase letters
  (\<^verbatim>\<open>chars\<close> and \<^verbatim>\<open>estimate_count\<close> both default to them), yet the
  passes of the subset test the flag \<^verbatim>\<open>use_lowercase\<close>, which is still false: at
  length 5, where \<open>26 ^ 5\<close> is over the cap, nothing at all is generated while the estimate
  is 1000000. With the lowercase box ticked, the same lengths give the first 1000000
  lowercase strings of length 5.
\<close>

theorem fallback_skips_defaulted_lowercase:
  "chars (PasswordGenerator 5 5 False False False False False) = ascii_lowercase
   \<and> estimate_count (PasswordGenerator 5 5 False False False False False) = 1000000
   \<and> generate_passwords (PasswordGenerator 5 5 False False False False False) C u = []
   \<and> generate_passwords (PasswordGenerator 5 5 True False False False False)
        \<lparr>progress_callback = None, pattern_callback = None\<rparr> u
      = take 1000000 (product_repeat ascii_lowercase 5)"
proof -
  let ?g = "PasswordGenerator 5 5 False False False False False"
  have c: "chars ?g = ascii_lowercase" by (simp add: chars_def PasswordGenerator_def)
  have e: "estimate_count ?g = 1000000"
    by (simp add: estimate_count_eq PasswordGenerator_def char_count_def)
  have up: "[min_length ?g ..< max_length ?g + 1] = [5]" by (simp add: PasswordGenerator_def)
  have lc: "length (chars ?g) ^ 5 = 11881376"
    by (simp add: length_chars char_count_def PasswordGenerator_def)
  have fl: "use_lowercase ?g = False" "use_digits ?g = False" "MAX_PASSWORDS ?g = enat 1000000"
    by (simp_all add: PasswordGenerator_def)
  have gl: "gen_length ?g P 5 s = (s, False)" if "cap P = enat 1000000" "count s = 0"
    for P :: "'a run_params" and s
    using that
    by (simp add: gen_length_def lc fl lowercase_pass_def numeric_pass_def mixed_pass_def)
  define s1 where "s1 = (case progress_callback C of
          Some f \<Rightarrow> snd (call_progress f 0 (total_estimate (params ?g C))
                      \<lparr> passwords = [], count = 0, cb_state = u, progress_calls = [] \<rparr>)
        | None \<Rightarrow> \<lparr> passwords = [], count = 0, cb_state = u, progress_calls = [] \<rparr>)"
  have s1: "count s1 = 0" "passwords s1 = []"
    unfolding s1_def by (auto simp: call_progress_def split: option.splits prod.splits)
  have "cap (params ?g C) = enat 1000000" by (simp add: params_def fl)
  then have "gen_lengths ?g (params ?g C) [5] s1 = (s1, False)"
    using s1(1) by (simp add: gl)
  then have g: "generate_passwords ?g C u = []"
    unfolding generate_passwords_def generate_run_passwords up s1_def[symmetric]
    by (simp add: s1(2))
  let ?h = "PasswordGenerator 5 5 True False False False False"
  have hf: "[min_length ?h ..< max_length ?h + 1] = [5]"
    by (simp add: PasswordGenerator_def)
  have h: "generate_passwords ?h \<lparr>progress_callback = None, pattern_callback = None\<rparr> u
             = take 1000000 (product_repeat ascii_lowercase 5)"
    unfolding generate_passwords_def generate_run_passwords hf gen_lengths_single
    using ticked_lowercase_length_5[of u] by simp
  from c e g h show ?thesis by blast
qed

section \<open>The memory thresholds\<close>

theorem warning_at_exactly_80_percent_counterexample:
  "memory_warning (gen_check_memory_usage True (Some 800) 1000) = None
   \<and> memory_warning (rec_check_memory_usage True (Some 800) 1000) = None
   \<and> (800::real) = real_of_int 1000 * 0.8"
  by (simp add: gen_check_memory_usage_def rec_check_memory_usage_def)

text \<open>
  Claim C2. Both checks compare with \<^verbatim>\<open>>\<close>: the warning is emitted exactly when the
  sample is strictly above 80% of the limit, in the generation thread and in the search
  thread alike, so a sample equal to 80% of the limit emits none (limit 1000, sample 800).
\<close>

theorem warning_strictly_above_80_percent:
  "memory_warning (gen_check_memory_usage True (Some m) ceiling_mb)
     = (if m > real_of_int ceiling_mb * 0.8 then Some m else None)
   \<and> memory_warning (rec_check_memory_usage True (Some m) ceiling_mb)
     = (if m > real_of_int ceiling_mb * 0.8 then Some m else None)
   \<and> memory_warning (gen_check_memory_usage True (Some (real_of_int ceiling_mb * 0.8)) ceiling_mb) = None
   \<and> memory_warning (rec_check_memory_usage True (Some (real_of_int ceiling_mb * 0.8)) ceiling_mb) = None"
  by (simp add: gen_check_memory_usage_def rec_check_memory_usage_def)

section \<open>One attempt, and the search loop\<close>

lemma try_password_total: "\<exists>b. try_password io password = Inr b"
  by (cases "try_body io password") (auto simp: try_password_def)


lemma try_password_error: "try_body io password = Inl e \<Longrightarrow> try_password io password = Inr False"
  by (simp add: try_password_def)

lemma not_decrypts: "\<not> decrypts env j \<Longrightarrow> try_password (attempt env j) (password_list env ! j) = Inr False"
  using try_password_total[of "attempt env j" "password_list env ! j"]
  by (auto simp: decrypts_def)

lemma sampled_Cons:
  "sampled env (j # js) = (if j mod 10 = 0 then [CurrentPasswordUpdate (password_list env ! j)] else []) @ sampled env js"
  by (simp add: sampled_def)

lemma sampled_append: "sampled env (xs @ ys) = sampled env xs @ sampled env ys"
  by (simp add: sampled_def)

lemma batch_loop_miss:
  "\<forall>j \<in> set js. \<not> decrypts env j \<Longrightarrow>
     batch_loop env js w =
       w\<lparr>events := events w @ sampled env js, tested := tested w @ js,
          current_position := (if js = [] then current_position w else last js + 1)\<rparr>"
proof (induction js arbitrary: w)
  case Nil
  then show ?case by (simp add: sampled_def)
next
  case (Cons j js)
  then have m: "try_password (attempt env j) (password_list env ! j) = Inr False"
    by (simp add: not_decrypts)
  from Cons have ih: "\<And>w. batch_loop env js w =
       w\<lparr>events := events w @ sampled env js, tested := tested w @ js,
          current_position := (if js = [] then current_position w else last js + 1)\<rparr>"
    by simp
  show ?case
    by (simp add: m ih Let_def emit_event_def sampled_Cons)
qed

lemma batch_loop_hit:
  assumes "\<forall>j \<in> set pre. \<not> decrypts env j" "decrypts env m"
  shows "batch_loop env (pre @ m # post) w =
       w\<lparr>events := events w @ sampled env (pre @ [m]) @ [PasswordFound (password_list env ! m)],
          tested := tested w @ pre @ [m],
          current_position := (if pre = [] then current_position w else last pre + 1),
          pc := Finished (Found (password_list env ! m))\<rparr>"
  using assms(1)
proof (induction pre arbitrary: w)
  case Nil
  from assms(2) show ?case
    by (simp add: decrypts_def Let_def emit_event_def sampled_Cons sampled_def)
next
  case (Cons j js)
  then have m: "try_password (attempt env j) (password_list env ! j) = Inr False"
    by (simp add: not_decrypts)
  from Cons have ih: "\<And>w. batch_loop env (js @ m # post) w =
       w\<lparr>events := events w @ sampled env (js @ [m]) @ [PasswordFound (password_list env ! m)],
          tested := tested w @ js @ [m],
          current_position := (if js = [] then current_position w else last js + 1),
          pc := Finished (Found (password_list env ! m))\<rparr>"
    by simp
  show ?case
    by (simp add: m ih Let_def emit_event_def sampled_Cons)
qed

lemma finished_act:
  "pc w = Finished out \<Longrightarrow>
     pc (act env a w) = Finished out \<and> events (act env a w) = events w \<and> tested (act env a w) = tested w"
  by (cases a) (simp_all add: step_def pause_def resume_def cancel_def wakeAll_def)

lemma finished_exec:
  "pc w = Finished out \<Longrightarrow>
     pc (exec env sched w) = Finished out \<and> events (exec env sched w) = events w
     \<and> tested (exec env sched w) = tested w"
proof (induction sched arbitrary: w)
  case Nil
  then show ?case by (simp add: exec_def)
next
  case (Cons a sched)
  from finished_act[OF Cons.prems, of env a] Cons.IH[of "act env a w"]
  show ?case by (simp add: exec_def)
qed

lemma exec_Cons: "exec env (a # sched) w = exec env sched (act env a w)"
  by (simp add: exec_def)

lemma exec_append: "exec env (xs @ ys) w = exec env ys (exec env xs w)"
  by (simp add: exec_def)


lemma batch_loop_pc:
  "(\<exists>out. pc (batch_loop env js w) = Finished out)
   \<or> batch_loop env js w =
       w\<lparr>events := events w @ sampled env js, tested := tested w @ js,
          current_position := (if js = [] then current_position w else last js + 1)\<rparr>"
proof (cases "\<forall>j \<in> set js. \<not> decrypts env j")
  case True
  then show ?thesis by (simp add: batch_loop_miss)
next
  case False
  then obtain pre m post where s: "js = pre @ m # post" "decrypts env m" "\<forall>j \<in> set pre. \<not> decrypts env j"
    by (metis split_list_first_prop)
  show ?thesis unfolding s(1) by (simp add: batch_loop_hit[OF s(3,2)])
qed

lemma worker_check_memory_fields:
  "pc w \<noteq> Waiting \<Longrightarrow> pc (worker_check_memory env w) = pc w"
  "tested (worker_check_memory env w) = tested w"
  "current_position (worker_check_memory env w) = current_position w"
  "i (worker_check_memory env w) = i w"
  by (auto simp: worker_check_memory_def Let_def cancel_def wakeAll_def emit_event_def
           split: option.splits)

lemma upt_join: "a \<le> b \<Longrightarrow> [0 ..< a] @ [a ..< b] = [0 ..< b]"
  using upt_add_eq_append[of 0 a "b - a"] by simp

lemma last_upt_Suc: "a < b \<Longrightarrow> last [a ..< b] + 1 = b"
  by (cases b) auto

lemma step_batch_miss:
  assumes "pc w = AtBatch" "e = min (i w + 100) (length (password_list env))" "i w < e"
    and "\<forall>j \<in> set [i w ..< e]. \<not> decrypts env j"
  shows "step env w =
     (let w2 = emit_event (ProgressUpdate (percent env e (length (password_list env))))
                 (w\<lparr>events := events w @ sampled env [i w ..< e],
                    tested := tested w @ [i w ..< e], current_position := e\<rparr>);
          w3 = (if i w mod 1000 = 0 then worker_check_memory env w2 else w2)
      in w3\<lparr>i := e, pc := AtLoop\<rparr>)"
proof -
  have l: "last [i w ..< e] + 1 = e" using assms(3) by (rule last_upt_Suc)
  have ne: "[i w ..< e] \<noteq> []" using assms(3) by simp
  have b: "batch_loop env [i w ..< e] w =
       w\<lparr>events := events w @ sampled env [i w ..< e], tested := tested w @ [i w ..< e],
          current_position := e\<rparr>"
    unfolding batch_loop_miss[OF assms(4)] using ne l by simp
  show ?thesis
    using assms(1) unfolding step_def Let_def assms(2)[symmetric] b
    by (simp add: emit_event_def[symmetric])
qed

lemma step_batch_hit:
  assumes "pc w = AtBatch" "e = min (i w + 100) (length (password_list env))"
    and "i w \<le> m" "m < e" "decrypts env m" "\<forall>j \<in> set [i w ..< m]. \<not> decrypts env j"
  shows "step env w =
     w\<lparr>events := events w @ sampled env [i w ..< m + 1] @ [PasswordFound (password_list env ! m)],
       tested := tested w @ [i w ..< m + 1],
       current_position := (if m = i w then current_position w else m),
       pc := Finished (Found (password_list env ! m))\<rparr>"
proof -
  have sp: "[i w ..< e] = [i w ..< m] @ m # [m + 1 ..< e]"
    using assms(3,4) by (metis Suc_eq_plus1 le_Suc_ex less_imp_le_nat upt_add_eq_append upt_conv_Cons)
  have m1: "[i w ..< m + 1] = [i w ..< m] @ [m]" using assms(3) by simp
  have cp: "(if [i w ..< m] = [] then current_position w else last [i w ..< m] + 1)
            = (if m = i w then current_position w else m)"
    using assms(3) by (auto simp: last_upt_Suc)
  have b: "batch_loop env [i w ..< e] w =
     w\<lparr>events := events w @ sampled env [i w ..< m + 1] @ [PasswordFound (password_list env ! m)],
       tested := tested w @ [i w ..< m + 1],
       current_position := (if m = i w then current_position w else m),
       pc := Finished (Found (password_list env ! m))\<rparr>"
    unfolding sp batch_loop_hit[OF assms(6,5)] m1 cp by simp
  show ?thesis
    using assms(1) unfolding step_def Let_def assms(2)[symmetric] b by simp
qed

lemma first_hit:
  assumes "\<not> (\<forall>j \<in> set [a ..< e]. \<not> decrypts env j)"
  obtains m where "a \<le> m" "m < e" "decrypts env m" "\<forall>j \<in> set [a ..< m]. \<not> decrypts env j"
proof -
  define m where "m = (LEAST j. a \<le> j \<and> j < e \<and> decrypts env j)"
  from assms obtain j0 where j0: "a \<le> j0 \<and> j0 < e \<and> decrypts env j0" by auto
  then have p: "a \<le> m \<and> m < e \<and> decrypts env m" unfolding m_def by (rule LeastI)
  have "\<forall>j \<in> set [a ..< m]. \<not> decrypts env j"
  proof
    fix j assume "j \<in> set [a ..< m]"
    then have j: "a \<le> j" "j < m" by simp_all
    show "\<not> decrypts env j"
    proof
      assume "decrypts env j"
      with j p have "a \<le> j \<and> j < e \<and> decrypts env j" by simp
      then have "m \<le> j" unfolding m_def by (rule Least_le)
      with j(2) show False by simp
    qed
  qed
  with p that show ?thesis by blast
qed

lemma worker_inv_step:
  assumes "worker_inv env w"
  shows "worker_inv env (step env w)"
proof (cases "pc w")
  case AtBatch
  define e where "e = min (i w + 100) (length (password_list env))"
  from assms AtBatch have inv: "i w = current_position w" "tested w = [0 ..< i w]"
    "i w < length (password_list env)"
    by (simp_all add: worker_inv_def)
  have ie: "i w < e" "e \<le> length (password_list env)" using inv(3) by (simp_all add: e_def)
  show ?thesis
  proof (cases "\<forall>j \<in> set [i w ..< e]. \<not> decrypts env j")
    case True
    have t: "tested w @ [i w ..< e] = [0 ..< e]"
      unfolding inv(2) using ie(1) by (intro upt_join) simp
    show ?thesis
      unfolding step_batch_miss[OF AtBatch e_def ie(1) True] Let_def
      using ie(2) by (simp add: worker_inv_def worker_check_memory_fields t emit_event_def)
  next
    case False
    then obtain m where m: "i w \<le> m" "m < e" "decrypts env m" "\<forall>j \<in> set [i w ..< m]. \<not> decrypts env j"
      by (rule first_hit)
    show ?thesis
      unfolding step_batch_hit[OF AtBatch e_def m] by (simp add: worker_inv_def)
  qed
qed (use assms in \<open>auto simp: step_def worker_inv_def Let_def emit_event_def\<close>)

lemma worker_inv_act:
  assumes "worker_inv env w"
  shows "worker_inv env (act env a w)"
proof (cases a)
  case Step
  then show ?thesis using worker_inv_step[OF assms] by simp
next
  case Pause
  then show ?thesis using assms by (cases "pc w") (simp_all add: pause_def worker_inv_def)
next
  case Resume
  then show ?thesis using assms by (cases "pc w") (simp_all add: resume_def wakeAll_def worker_inv_def)
next
  case Cancel
  then show ?thesis using assms by (cases "pc w") (simp_all add: cancel_def wakeAll_def worker_inv_def)
qed

lemma worker_inv_exec:
  "worker_inv env w \<Longrightarrow> worker_inv env (exec env sched w)"
  by (induction sched arbitrary: w) (simp_all add: exec_def worker_inv_act)

lemma worker_inv_init: "worker_inv env init_worker"
  by (simp add: worker_inv_def init_worker_def)

lemma worker_check_memory_quiet:
  assumes "\<not> memory_cancels env (i w)" "i w mod 1000 = 0"
  shows "cancelled (worker_check_memory env w) = cancelled w"
    and "paused (worker_check_memory env w) = paused w"
  using assms
  by (auto simp: worker_check_memory_def memory_cancels_def Let_def emit_event_def split: option.splits)

lemma finished_steps:
  "pc w = Finished out \<Longrightarrow>
     pc (exec env (replicate n Step) w) = Finished out
     \<and> tested (exec env (replicate n Step) w) = tested w"
  using finished_exec[of w out env "replicate n Step"] by simp

lemma step_batch_miss_fields:
  assumes "pc w = AtBatch" "e = min (i w + 100) (length (password_list env))" "i w < e"
    and "\<forall>j \<in> set [i w ..< e]. \<not> decrypts env j" and "\<not> memory_cancels env (i w)"
  shows "pc (step env w) = AtLoop" "i (step env w) = e" "tested (step env w) = tested w @ [i w ..< e]"
    "cancelled (step env w) = cancelled w" "paused (step env w) = paused w"
    "current_position (step env w) = e"
  unfolding step_batch_miss[OF assms(1-4)] Let_def
  using assms(5)
  by (simp_all add: worker_check_memory_fields worker_check_memory_quiet emit_event_def)

lemma run_from_batch:
  assumes nomem: "\<forall>b. \<not> memory_cancels env b"
  shows "pc w = AtBatch \<Longrightarrow> i w < length (password_list env) \<Longrightarrow> tested w = [0 ..< i w] \<Longrightarrow>
     \<not> cancelled w \<Longrightarrow> \<not> paused w \<Longrightarrow>
     \<forall>j. i w \<le> j \<and> j < length (password_list env) \<longrightarrow> \<not> decrypts env j \<Longrightarrow>
     3 * (length (password_list env) - i w) \<le> n \<Longrightarrow>
     pc (exec env (replicate n Step) w) = Finished NotFound
     \<and> tested (exec env (replicate n Step) w) = [0 ..< length (password_list env)]"
proof (induction "length (password_list env) - i w" arbitrary: w n rule: less_induct)
  case less
  let ?total = "length (password_list env)"
  define e where "e = min (i w + 100) ?total"
  have ie: "i w < e" "e \<le> ?total" using less.prems(2) by (simp_all add: e_def)
  have miss: "\<forall>j \<in> set [i w ..< e]. \<not> decrypts env j" using less.prems(6) ie(2) by auto
  note f = step_batch_miss_fields[OF less.prems(1) e_def ie(1) miss nomem[rule_format]]
  define w1 where "w1 = step env w"
  have t1: "tested w1 = [0 ..< e]"
    unfolding w1_def f(3) less.prems(3) using ie(1) by (intro upt_join) simp
  have w1: "pc w1 = AtLoop" "i w1 = e" "\<not> cancelled w1" "\<not> paused w1"
    unfolding w1_def using f less.prems(4,5) by simp_all
  have n_ge: "3 \<le> n" using less.prems(7,2) by simp
  define n1 where "n1 = n - 2"
  have n: "n = Suc (Suc n1)" using n_ge by (simp add: n1_def)
  show ?case
  proof (cases "e = ?total")
    case True
    define w2 where "w2 = step env w1"
    have w2: "pc w2 = Finished NotFound" "tested w2 = [0 ..< ?total]"
      unfolding w2_def using w1 t1 True by (simp_all add: step_def Let_def emit_event_def)
    have "exec env (replicate n Step) w = exec env (replicate n1 Step) w2"
      unfolding n w2_def w1_def by (simp add: exec_Cons)
    with finished_steps[OF w2(1), of env n1] w2(2) show ?thesis by simp
  next
    case False
    with ie(2) have lt: "e < ?total" by simp
    define w2 where "w2 = step env w1"
    define w3 where "w3 = step env w2"
    have w2: "pc w2 = AtPauseGate" "i w2 = e" "\<not> cancelled w2" "\<not> paused w2" "tested w2 = [0 ..< e]"
      unfolding w2_def using w1 t1 lt by (simp_all add: step_def Let_def)
    have w3: "pc w3 = AtBatch" "i w3 = e" "\<not> cancelled w3" "\<not> paused w3" "tested w3 = [0 ..< e]"
      unfolding w3_def using w2 by (simp_all add: step_def Let_def)
    have big: "3 * (?total - i w) \<ge> 3 * (?total - e) + 3" using ie(1) lt by simp
    define n3 where "n3 = n - 3"
    have n3: "n = Suc (Suc (Suc n3))" "3 * (?total - e) \<le> n3"
      using big less.prems(7) n_ge by (simp_all add: n3_def)
    have ex: "exec env (replicate n Step) w = exec env (replicate n3 Step) w3"
      unfolding n3(1) w3_def w2_def w1_def by (simp add: exec_Cons)
    have "pc (exec env (replicate n3 Step) w3) = Finished NotFound
     \<and> tested (exec env (replicate n3 Step) w3) = [0 ..< ?total]"
    proof (rule less.hyps)
      show "?total - i w3 < ?total - i w" using w3(2) ie(1) lt by simp
      show "pc w3 = AtBatch" by (rule w3(1))
      show "i w3 < ?total" using w3(2) lt by simp
      show "tested w3 = [0 ..< i w3]" using w3(2,5) by simp
      show "\<not> cancelled w3" by (rule w3(3))
      show "\<not> paused w3" by (rule w3(4))
      show "\<forall>j. i w3 \<le> j \<and> j < ?total \<longrightarrow> \<not> decrypts env j"
        using less.prems(6) w3(2) ie(1) by auto
      show "3 * (?total - i w3) \<le> n3" using n3(2) w3(2) by simp
    qed
    with ex show ?thesis by simp
  qed
qed



text \<open>
  Claim C4. Take any run from the start that leaves the worker blocked at the pause gate,
  not cancelled, with \<^verbatim>\<open>i = k\<close>. Then \<^verbatim>\<open>current_position\<close> is \<open>k\<close> and the
  indices tried so far are \<open>0, ..., k - 1\<close> in order. If no candidate from \<open>k\<close> on decrypts
  and the memory check never cancels, then after \<^verbatim>\<open>resume\<close> the worker, left to run,
  ends as not found having tried exactly \<open>k, ..., total - 1\<close> next, each once, in order.
\<close>

theorem resume_tests_rest_once_in_order:
  assumes "w = exec env sched init_worker" and "pc w = Waiting" and "i w = k" and "\<not> cancelled w"
    and "\<forall>j. k \<le> j \<and> j < length (password_list env) \<longrightarrow> \<not> decrypts env j"
    and "\<forall>b. \<not> memory_cancels env b"
    and "3 * (length (password_list env) - k) \<le> n"
  shows "current_position w = k \<and> tested w = [0 ..< k]
       \<and> pc (exec env (Resume # replicate n Step) w) = Finished NotFound
       \<and> tested (exec env (Resume # replicate n Step) w)
           = [0 ..< k] @ [k ..< length (password_list env)]"
proof -
  have "worker_inv env w" unfolding assms(1) by (intro worker_inv_exec worker_inv_init)
  with assms(2,3) have inv: "current_position w = k" "tested w = [0 ..< k]"
    "k < length (password_list env)"
    by (simp_all add: worker_inv_def)
  define r where "r = resume w"
  have r: "pc r = AtBatch" "i r = k" "tested r = [0 ..< k]" "\<not> cancelled r" "\<not> paused r"
    unfolding r_def using assms(2,3,4) inv by (simp_all add: resume_def wakeAll_def)
  have "pc (exec env (replicate n Step) r) = Finished NotFound
     \<and> tested (exec env (replicate n Step) r) = [0 ..< length (password_list env)]"
    using assms(5,7) r inv(3) by (intro run_from_batch[OF assms(6)]) simp_all
  moreover have "exec env (Resume # replicate n Step) w = exec env (replicate n Step) r"
    by (simp add: exec_Cons r_def)
  moreover have "[0 ..< k] @ [k ..< length (password_list env)] = [0 ..< length (password_list env)]"
    using inv(3) by (intro upt_join) simp
  ultimately show ?thesis using inv by simp
qed

lemma act_not_step:
  assumes "a \<noteq> Step" "pc w \<noteq> Waiting"
  shows "pc (act env a w) = pc w" "tested (act env a w) = tested w" "i (act env a w) = i w"
    "cancelled w \<Longrightarrow> cancelled (act env a w)"
  using assms by (cases a; simp add: pause_def resume_def cancel_def wakeAll_def)+

section \<open>Cancelling a paused worker\<close>

lemma find_first:
  "\<forall>x \<in> set pre. \<not> P x \<Longrightarrow> P m \<Longrightarrow> find P (pre @ m # post) = Some m"
  by (induction pre) simp_all

lemma find_none: "\<forall>x \<in> set xs. \<not> P x \<Longrightarrow> find P xs = None"
  by (simp add: find_None_iff)

lemma cancelled_at_loop:
  "cancelled w \<Longrightarrow> pc w = AtLoop \<Longrightarrow> 1 \<le> count_list sched Step \<Longrightarrow>
     pc (exec env sched w)
       = Finished (if i w < length (password_list env) then Cancelled else NotFound)
     \<and> tested (exec env sched w) = tested w"
proof (induction sched arbitrary: w)
  case Nil
  then show ?case by simp
next
  case (Cons a sched)
  show ?case
  proof (cases "a = Step")
    case True
    define w1 where "w1 = step env w"
    have o: "pc w1 = Finished (if i w < length (password_list env) then Cancelled else NotFound)"
      "tested w1 = tested w"
      unfolding w1_def using Cons.prems(1,2) by (simp_all add: step_def Let_def emit_event_def)
    from finished_exec[OF o(1), of env sched] o(2) True show ?thesis
      by (simp add: exec_Cons w1_def)
  next
    case False
    with Cons.prems have "cancelled (act env a w)" "pc (act env a w) = AtLoop"
      "1 \<le> count_list sched Step" "tested (act env a w) = tested w" "i (act env a w) = i w"
      by (simp_all add: act_not_step)
    with Cons.IH[of "act env a w"] show ?thesis by (simp add: exec_Cons)
  qed
qed

lemma worker_check_memory_cancelled:
  "cancelled w \<Longrightarrow> cancelled (worker_check_memory env w)"
  by (auto simp: worker_check_memory_def Let_def cancel_def wakeAll_def emit_event_def
           split: option.splits)

lemma cancelled_batch_step:
  assumes "cancelled w" "pc w = AtBatch" "i w < length (password_list env)"
    and "e = min (i w + 100) (length (password_list env))"
  shows "(case find (decrypts env) [i w ..< e] of
            Some m \<Rightarrow> pc (step env w) = Finished (Found (password_list env ! m))
          | None \<Rightarrow> pc (step env w) = AtLoop \<and> cancelled (step env w) \<and> i (step env w) = e)
       \<and> length (tested (step env w)) \<le> length (tested w) + 100"
proof -
  have ie: "i w < e" "e \<le> i w + 100" using assms(3) by (simp_all add: assms(4))
  show ?thesis
  proof (cases "\<forall>j \<in> set [i w ..< e]. \<not> decrypts env j")
    case True
    then have f: "find (decrypts env) [i w ..< e] = None" by (rule find_none)
    show ?thesis
      unfolding f step_batch_miss[OF assms(2,4) ie(1) True] Let_def
      using assms(1) ie(2)
      by (auto simp add: worker_check_memory_fields worker_check_memory_cancelled emit_event_def)
  next
    case False
    then obtain m where m: "i w \<le> m" "m < e" "decrypts env m" "\<forall>j \<in> set [i w ..< m]. \<not> decrypts env j"
      by (rule first_hit)
    have sp: "[i w ..< e] = [i w ..< m] @ m # [m + 1 ..< e]"
    proof -
      have "[i w ..< e] = [i w ..< m] @ [m ..< e]"
        using m(1,2) upt_add_eq_append[of "i w" m "e - m"] by simp
      also have "[m ..< e] = m # [m + 1 ..< e]" using m(2) by (simp add: upt_conv_Cons)
      finally show ?thesis .
    qed
    have f: "find (decrypts env) [i w ..< e] = Some m"
      unfolding sp using m(4,3) by (rule find_first)
    show ?thesis
      unfolding f step_batch_hit[OF assms(2,4) m] using m(1,2) ie(2) by simp
  qed
qed

lemma cancelled_at_batch:
  "cancelled w \<Longrightarrow> pc w = AtBatch \<Longrightarrow> i w < length (password_list env) \<Longrightarrow>
   2 \<le> count_list sched Step \<Longrightarrow>
     pc (exec env sched w) = Finished (outcome_after_cancel env (i w))
     \<and> length (tested (exec env sched w)) \<le> length (tested w) + 100"
proof (induction sched arbitrary: w)
  case Nil
  then show ?case by simp
next
  case (Cons a sched)
  show ?case
  proof (cases "a = Step")
    case True
    define e where "e = min (i w + 100) (length (password_list env))"
    define w1 where "w1 = step env w"
    note b = cancelled_batch_step[OF Cons.prems(1,2,3) e_def, folded w1_def]
    from True Cons.prems(4) have c: "1 \<le> count_list sched Step" by simp
    have ex: "exec env (a # sched) w = exec env sched w1" using True by (simp add: exec_Cons w1_def)
    have l: "length (tested w1) \<le> length (tested w) + 100" using b by simp
    show ?thesis
    proof (cases "find (decrypts env) [i w ..< e]")
      case None
      with b have w1: "pc w1 = AtLoop" "cancelled w1" "i w1 = e" by simp_all
      have "outcome_after_cancel env (i w)
              = (if e < length (password_list env) then Cancelled else NotFound)"
        using None by (simp add: outcome_after_cancel_def Let_def e_def)
      with cancelled_at_loop[OF w1(2,1) c, of env] w1(3) l show ?thesis
        unfolding ex by simp
    next
      case (Some m)
      with b have f: "pc w1 = Finished (Found (password_list env ! m))" by simp
      have "outcome_after_cancel env (i w) = Found (password_list env ! m)"
        using Some by (simp add: outcome_after_cancel_def Let_def e_def)
      with finished_exec[OF f, of env sched] l show ?thesis unfolding ex by simp
    qed
  next
    case False
    with Cons.prems have "cancelled (act env a w)" "pc (act env a w) = AtBatch"
      "i (act env a w) < length (password_list env)"
      "2 \<le> count_list sched Step" "tested (act env a w) = tested w" "i (act env a w) = i w"
      by (simp_all add: act_not_step)
    with Cons.IH[of "act env a w"] show ?thesis by (simp add: exec_Cons)
  qed
qed

text \<open>
  Claim C9. For a worker blocked at the pause gate, \<^verbatim>\<open>cancel\<close> wakes it: it is then
  about to process its batch, with the flag set. Under every schedule that gives it two
  more steps of its own, whatever the controlling thread does in between, it has
  finished, after at most 100 further attempts, and \<open>outcome_after_cancel\<close> says how: it runs
  the batch first, since the flag is read again only at the next loop test, so it ends as
  found when that batch holds the password, as not found when that batch was the last,
  and as cancelled otherwise.
\<close>

theorem cancel_releases_paused_worker:
  assumes "pc w = Waiting" and "i w < length (password_list env)" and "2 \<le> count_list sched Step"
  shows "pc (cancel w) = AtBatch \<and> cancelled (cancel w)
       \<and> pc (exec env (Cancel # sched) w) = Finished (outcome_after_cancel env (i w))
       \<and> length (tested (exec env (Cancel # sched) w)) \<le> length (tested w) + 100"
proof -
  have c: "pc (cancel w) = AtBatch" "cancelled (cancel w)" "i (cancel w) = i w"
    "tested (cancel w) = tested w"
    using assms(1) by (simp_all add: cancel_def wakeAll_def)
  have i: "i (cancel w) < length (password_list env)" using assms(2) c(3) by simp
  from cancelled_at_batch[OF c(2,1) i assms(3)] c(3,4)
  show ?thesis using c(1,2) by (simp add: exec_Cons)
qed

theorem cancel_while_paused_counterexample:
  "pc (exec (example_env [''a''] (opens_with ''b'') percent_single_batch)
         [Pause, Step, Step, Step] init_worker) = Waiting
   \<and> pc (exec (example_env [''a''] (opens_with ''b'') percent_single_batch)
         [Pause, Step, Step, Step, Cancel, Step, Step] init_worker) = Finished NotFound
   \<and> tested (exec (example_env [''a''] (opens_with ''b'') percent_single_batch)
         [Pause, Step, Step, Step, Cancel, Step, Step] init_worker) = [0]
   \<and> events (exec (example_env [''a''] (opens_with ''b'') percent_single_batch)
         [Pause, Step, Step, Step, Cancel, Step, Step] init_worker)
       = [CurrentPasswordUpdate ''a'', ProgressUpdate 100, PasswordNotFound]"
  by (simp add: exec_def step_def init_worker_def example_env_def opens_with_def emit_event_def
        try_password_def try_body_def Let_def pause_def cancel_def wakeAll_def
        worker_check_memory_def rec_check_memory_usage_def percent_single_batch_def)

lemma no_hit_150:
  "j < 150 \<Longrightarrow> \<not> decrypts (example_env (replicate 150 ''x'') (opens_with ''y'') percent_of_150) j"
  by (simp add: decrypts_def example_env_def opens_with_def try_password_def try_body_def)

theorem cancel_releases_paused_worker_witness:
  "pc (exec (example_env (replicate 150 ''x'') (opens_with ''y'') percent_of_150)
         [Pause, Step, Step, Step] init_worker) = Waiting
   \<and> pc (exec (example_env (replicate 150 ''x'') (opens_with ''y'') percent_of_150)
         (Cancel # [Step, Pause, Step, Resume])
         (exec (example_env (replicate 150 ''x'') (opens_with ''y'') percent_of_150)
            [Pause, Step, Step, Step] init_worker)) = Finished Cancelled
   \<and> pc (exec (example_env [''a''] (opens_with ''a'') percent_single_batch)
         (Cancel # [Step, Step])
         (exec (example_env [''a''] (opens_with ''a'') percent_single_batch)
            [Pause, Step, Step, Step] init_worker)) = Finished (Found ''a'')"
proof -
  let ?env = "example_env (replicate 150 ''x'') (opens_with ''y'') percent_of_150"
  let ?w = "exec ?env [Pause, Step, Step, Step] init_worker"
  have w: "pc ?w = Waiting" "i ?w = 0" "length (password_list ?env) = 150"
    by (simp_all add: exec_def step_def init_worker_def example_env_def pause_def Let_def)
  have i: "i ?w < length (password_list ?env)" using w(2,3) by simp
  have s: "2 \<le> count_list [Step, Pause, Step, Resume] Step" by simp
  have "find (decrypts ?env) [0 ..< 100] = None"
    by (rule find_none) (simp add: no_hit_150)
  then have o: "outcome_after_cancel ?env (i ?w) = Cancelled"
    unfolding w(2) by (simp add: outcome_after_cancel_def w(3))
  let ?env1 = "example_env [''a''] (opens_with ''a'') percent_single_batch"
  let ?w1 = "exec ?env1 [Pause, Step, Step, Step] init_worker"
  have w1: "pc ?w1 = Waiting" "i ?w1 < length (password_list ?env1)"
    by (simp_all add: exec_def step_def init_worker_def example_env_def pause_def Let_def)
  have s1: "2 \<le> count_list [Step, Step] Step" by simp
  have o1: "outcome_after_cancel ?env1 (i ?w1) = Found ''a''"
    by (simp add: outcome_after_cancel_def exec_def step_def init_worker_def example_env_def
          pause_def Let_def decrypts_def opens_with_def try_password_def try_body_def)
  from cancel_releases_paused_worker[OF w(1) i s] cancel_releases_paused_worker[OF w1 s1] w(1)
  show ?thesis unfolding o o1 by simp
qed

section \<open>Sample runs of the search worker\<close>



text \<open>The sample environment never reaches the memory ceiling.\<close>

lemma no_memory_cancel_example: "\<not> memory_cancels (example_env pws io pct) b"
  by (simp add: memory_cancels_def example_env_def rec_check_memory_usage_def)

text \<open>
  150 candidates, none of which opens the document: the first batch of 100 is tried,
  \<^verbatim>\<open>pause\<close> arrives, the worker blocks at the gate with \<^verbatim>\<open>i = 100\<close>, and after
  \<^verbatim>\<open>resume\<close> it tries the indices 100 to 149 and ends as not found.
\<close>

theorem resume_tests_rest_once_in_order_witness:
  "pc (exec (example_env (replicate 150 ''x'') (opens_with ''y'') percent_of_150)
         [Step, Step, Step, Step, Pause, Step, Step] init_worker) = Waiting
   \<and> i (exec (example_env (replicate 150 ''x'') (opens_with ''y'') percent_of_150)
         [Step, Step, Step, Step, Pause, Step, Step] init_worker) = 100
   \<and> current_position (exec (example_env (replicate 150 ''x'') (opens_with ''y'') percent_of_150)
         [Step, Step, Step, Step, Pause, Step, Step] init_worker) = 100
   \<and> tested (exec (example_env (replicate 150 ''x'') (opens_with ''y'') percent_of_150)
         [Step, Step, Step, Step, Pause, Step, Step] init_worker) = [0 ..< 100]
   \<and> pc (exec (example_env (replicate 150 ''x'') (opens_with ''y'') percent_of_150)
         (Resume # replicate 150 Step)
         (exec (example_env (replicate 150 ''x'') (opens_with ''y'') percent_of_150)
            [Step, Step, Step, Step, Pause, Step, Step] init_worker)) = Finished NotFound
   \<and> tested (exec (example_env (replicate 150 ''x'') (opens_with ''y'') percent_of_150)
         (Resume # replicate 150 Step)
         (exec (example_env (replicate 150 ''x'') (opens_with ''y'') percent_of_150)
            [Step, Step, Step, Step, Pause, Step, Step] init_worker)) = [0 ..< 100] @ [100 ..< 150]"
proof -
  let ?env = "example_env (replicate 150 ''x'') (opens_with ''y'') percent_of_150"
  define w3 where "w3 = exec ?env [Step, Step, Step] init_worker"
  define w4 where "w4 = step ?env w3"
  define w where "w = exec ?env [Step, Step, Step, Step, Pause, Step, Step] init_worker"
  have len: "length (password_list ?env) = 150" by (simp add: example_env_def)
  have w3: "pc w3 = AtBatch" "i w3 = 0" "\<not> cancelled w3" "\<not> paused w3"
    unfolding w3_def
    by (simp_all add: exec_def step_def init_worker_def example_env_def Let_def)
  have e: "(100::nat) = min (i w3 + 100) (length (password_list ?env))"
    by (simp add: w3(2) len)
  have miss: "\<forall>j \<in> set [i w3 ..< 100]. \<not> decrypts ?env j"
    by (simp add: no_hit_150 w3(2))
  have lt: "i w3 < 100" by (simp add: w3(2))
  note f = step_batch_miss_fields[OF w3(1) e lt miss no_memory_cancel_example, folded w4_def]
  have w4: "pc w4 = AtLoop" "i w4 = 100" "\<not> cancelled w4"
    using f w3(3) by simp_all
  have weq: "w = step ?env (step ?env (pause w4))"
    unfolding w_def w4_def w3_def by (simp add: exec_def)
  have w: "pc w = Waiting" "i w = 100" "\<not> cancelled w"
    unfolding weq using w4 len by (simp_all add: step_def pause_def Let_def)
  have nohit: "\<forall>j. 100 \<le> j \<and> j < length (password_list ?env) \<longrightarrow> \<not> decrypts ?env j"
    by (simp add: len no_hit_150)
  have nomem: "\<forall>b. \<not> memory_cancels ?env b" by (simp add: no_memory_cancel_example)
  have n: "3 * (length (password_list ?env) - 100) \<le> 150" by (simp add: len)
  from resume_tests_rest_once_in_order[OF w_def w(1,2,3) nohit nomem n] w(1,2)
  show ?thesis unfolding w_def[symmetric] len by simp
qed

section \<open>A failed attempt does not end the search\<close>



end
